theory Spec2Isabelle
  imports Main "HOL-Library.Monad_Syntax" "HOL-Library.Sublist"
begin

section \<open>The workflow grammar as a recogniser\<close>

text \<open>
  The workflow language is defined by a parsing expression grammar (the rules
  \<^verbatim>\<open>workflow\<close> to \<^verbatim>\<open>WHITESPACE\<close> at the end of
  \<^verbatim>\<open>shinkai-app/src/api/index.ts\<close>), written for the pest parser generator.
  Each rule is embedded as a function from the remaining input to
  \<open>None\<close> (the rule fails; the position is unchanged) or to the value of the rule
  with the input that is left.

  The operators are read as pest generates them:
  \<^item> \<open>a | b\<close> is ordered choice: \<open>b\<close> is tried only where \<open>a\<close> fails;
  \<^item> \<open>~\<close> binds tighter than \<open>|\<close>;
  \<^item> in a normal rule \<open>{ ... }\<close> and in a silent rule \<open>_{ ... }\<close>, the sequence
    \<open>a ~ b\<close> runs \<open>a\<close>, then skips any run of \<^verbatim>\<open>WHITESPACE\<close>, then runs
    \<open>b\<close>; a failing sequence restores the position;
  \<^item> \<open>e*\<close> is \<open>e\<close> once and then, repeatedly, whitespace followed by \<open>e\<close>
    (a failing round restores the position before its whitespace), or nothing;
    \<open>e+\<close> is \<open>e ~ e*\<close>; \<open>e?\<close> is \<open>e\<close> or nothing;
  \<^item> in an atomic rule (marked \<open>@\<close> before its brace) no whitespace is skipped;
  \<^item> the text of a rule is the input between the position where it started and
    the position where it ended.

  The source is a list of characters. \<^verbatim>\<open>ANY\<close> takes one of them.
\<close>

subsection \<open>Characters, whitespace and literals\<close>

text \<open>\<^verbatim>\<open>WHITESPACE = _{ " " | "\t" | "\n" | "\r" }\<close>\<close>

definition WHITESPACE :: "char \<Rightarrow> bool" where
  "WHITESPACE c \<longleftrightarrow> c = CHR '' '' \<or> c = CHR 0x09 \<or> c = CHR 0x0A \<or> c = CHR 0x0D"

text \<open>The implicit whitespace between the parts of a sequence: \<^verbatim>\<open>WHITESPACE*\<close>.\<close>

definition skip :: "string \<Rightarrow> string" where
  "skip s = dropWhile WHITESPACE s"

definition ASCII_DIGIT :: "char \<Rightarrow> bool" where
  "ASCII_DIGIT c \<longleftrightarrow> c \<in> set ''0123456789''"

definition ASCII_ALPHANUMERIC :: "char \<Rightarrow> bool" where
  "ASCII_ALPHANUMERIC c \<longleftrightarrow>
     c \<in> set ''0123456789abcdefghijklmnopqrstuvwxyzABCDEFGHIJKLMNOPQRSTUVWXYZ''"

text \<open>A string literal of the grammar: it matches when the input starts with it.\<close>

definition lit :: "string \<Rightarrow> string \<Rightarrow> string option" where
  "lit p s = (if take (length p) s = p then Some (drop (length p) s) else None)"

text \<open>The text a rule matched, given the input at its start and at its end.\<close>

definition span :: "string \<Rightarrow> string \<Rightarrow> string" where
  "span s r = take (length s - length r) s"

subsection \<open>Atomic rules\<close>

text \<open>The atomic rule \<^verbatim>\<open>identifier\<close>: \<^verbatim>\<open>(ASCII_ALPHANUMERIC | "_")+\<close>\<close>

definition identifier_char :: "char \<Rightarrow> bool" where
  "identifier_char c \<longleftrightarrow> ASCII_ALPHANUMERIC c \<or> c = CHR ''_''"

definition identifier_rule :: "string \<Rightarrow> (string \<times> string) option" where
  "identifier_rule s =
     (case takeWhile identifier_char s of
        [] \<Rightarrow> None
      | c # n \<Rightarrow> Some (c # n, dropWhile identifier_char s))"

text \<open>The atomic rule \<^verbatim>\<open>identity\<close>: \<^verbatim>\<open>(ASCII_ALPHANUMERIC | "_" | "." | "-")*\<close>\<close>

definition identity_char :: "char \<Rightarrow> bool" where
  "identity_char c \<longleftrightarrow> ASCII_ALPHANUMERIC c \<or> c = CHR ''_'' \<or> c = CHR ''.'' \<or> c = CHR ''-''"

definition identity :: "string \<Rightarrow> (string \<times> string) option" where
  "identity s = Some (takeWhile identity_char s, dropWhile identity_char s)"

text \<open>The atomic rule \<^verbatim>\<open>sticky_tag\<close>: \<^verbatim>\<open>"sticky"\<close>\<close>

definition sticky_tag :: "string \<Rightarrow> string option" where
  "sticky_tag s = lit ''sticky'' s"

subsection \<open>The workflow model\<close>

text \<open>
  Modelled from the spec: the typed workflow model of its data-model section (the
  builder that turns the parse tree into it is not among the source files). Every node
  is the typed view of the pair the grammar produces for the rule of the same name; a
  leaf keeps the text its rule matched.
\<close>

datatype param =
    StringLiteral string
  | IntegerLiteral string
  | BooleanLiteral bool
  | Identifier string
  | RegisterReference string

datatype comparison = Equal | NotEqual | Greater | Less | GreaterEqual | LessEqual

datatype expression =
    RangeExpression string string
  | Comparison param comparison param
  | SimpleExpression param

datatype action =
    ExternalFunctionCall string "param list"
  | Command string "param list"

datatype iterable =
    SplitExpression param string
  | RangeIterable string string

datatype assigned =
    AssignedCall string "param list"
  | AssignedValue param

datatype statement =
    Condition expression "statement list"
  | RegisterAssignment string assigned
  | Action action
  | ForLoop string iterable "statement list"

datatype step = Step (step_name: string) (statements: "statement list")

datatype workflow =
  Workflow (name: string) (version_text: string) (steps: "step list")
    (author: "string option") (sticky: bool)

subsection \<open>Digits, numbers and versions\<close>

abbreviation quote :: char where
  "quote \<equiv> CHR 0x22"

abbreviation backslash :: char where
  "backslash \<equiv> CHR 0x5C"

text \<open>\<^verbatim>\<open>ANY\<close> and \<^verbatim>\<open>ASCII_DIGIT\<close> as rules.\<close>

fun ANY :: "string \<Rightarrow> string option" where
  "ANY [] = None"
| "ANY (c # r) = Some r"

fun digit :: "string \<Rightarrow> string option" where
  "digit [] = None"
| "digit (c # r) = (if ASCII_DIGIT c then Some r else None)"

lemma length_skip [simp]: "length (skip s) \<le> length s"
  by (simp add: skip_def length_dropWhile_le)

lemma length_digit: "digit s = Some r \<Longrightarrow> length r < length s"
  by (cases s) (auto split: if_splits)

text \<open>
  \<^verbatim>\<open>ASCII_DIGIT+\<close> in a normal rule: a digit, whitespace, then \<^verbatim>\<open>ASCII_DIGIT*\<close>,
  which is a digit followed by rounds of whitespace and a digit.
\<close>

function digits_more :: "string \<Rightarrow> string" where
  "digits_more s = (case digit (skip s) of None \<Rightarrow> s | Some r \<Rightarrow> digits_more r)"
  by pat_completeness auto
termination
proof (relation "measure length")
  fix s r
  assume "digit (skip s) = Some r"
  then have "length r < length (skip s)" by (rule length_digit)
  also have "\<dots> \<le> length s" by simp
  finally show "(r, s) \<in> measure length" by simp
qed simp

declare digits_more.simps [simp del]

definition digits_rep :: "string \<Rightarrow> string" where
  "digits_rep s = (case digit s of None \<Rightarrow> s | Some r \<Rightarrow> digits_more r)"

definition digits1 :: "string \<Rightarrow> string option" where
  "digits1 s = do { r \<leftarrow> digit s; Some (digits_rep (skip r)) }"

text \<open>\<^verbatim>\<open>number = _{ ASCII_DIGIT+ }\<close>\<close>

definition number :: "string \<Rightarrow> (string \<times> string) option" where
  "number s = do { r \<leftarrow> digits1 s; Some (span s r, r) }"

text \<open>\<^verbatim>\<open>version = { "v" ~ ASCII_DIGIT+ ~ ("." ~ ASCII_DIGIT+)* }\<close>\<close>

definition dot_digits :: "string \<Rightarrow> string option" where
  "dot_digits s = do { r \<leftarrow> lit ''.'' s; digits1 (skip r) }"

lemma length_lit: "lit p s = Some r \<Longrightarrow> length r + length p = length s"
proof -
  assume "lit p s = Some r"
  then have t: "take (length p) s = p" and r: "r = drop (length p) s"
    by (auto simp: lit_def split: if_splits)
  have "length (take (length p) s) = length p" using t by simp
  then have "length p \<le> length s" by simp
  then show ?thesis using r by simp
qed

lemma length_digits_more [simp]: "length (digits_more s) \<le> length s"
proof (induction s rule: digits_more.induct)
  case (1 s)
  show ?case
  proof (cases "digit (skip s)")
    case None
    then show ?thesis by (simp add: digits_more.simps [of s])
  next
    case (Some r)
    have "length (digits_more r) \<le> length r" using 1 Some by simp
    also have "\<dots> < length (skip s)" using Some by (rule length_digit)
    also have "\<dots> \<le> length s" by simp
    finally show ?thesis using Some by (simp add: digits_more.simps [of s])
  qed
qed

lemma length_digits_rep [simp]: "length (digits_rep s) \<le> length s"
proof (cases "digit s")
  case None
  then show ?thesis by (simp add: digits_rep_def)
next
  case (Some r)
  have "length (digits_more r) \<le> length r" by simp
  also have "\<dots> < length s" using Some by (rule length_digit)
  finally show ?thesis using Some by (simp add: digits_rep_def)
qed

lemma length_digits1: "digits1 s = Some r \<Longrightarrow> length r < length s"
proof -
  assume a: "digits1 s = Some r"
  then obtain r1 where d: "digit s = Some r1" and r: "r = digits_rep (skip r1)"
    by (auto simp: digits1_def split: bind_splits)
  have "length r \<le> length (skip r1)" unfolding r by simp
  also have "\<dots> \<le> length r1" by simp
  also have "\<dots> < length s" using d by (rule length_digit)
  finally show ?thesis .
qed

lemma length_dot_digits: "dot_digits s = Some r \<Longrightarrow> length r < length s"
proof -
  assume a: "dot_digits s = Some r"
  then obtain r1 where l: "lit ''.'' s = Some r1" and d: "digits1 (skip r1) = Some r"
    by (auto simp: dot_digits_def split: bind_splits)
  have "length r < length (skip r1)" using d by (rule length_digits1)
  also have "\<dots> \<le> length r1" by simp
  also have "\<dots> \<le> length s" using length_lit [OF l] by simp
  finally show ?thesis .
qed

function dot_digits_more :: "string \<Rightarrow> string" where
  "dot_digits_more s = (case dot_digits (skip s) of None \<Rightarrow> s | Some r \<Rightarrow> dot_digits_more r)"
  by pat_completeness auto
termination
proof (relation "measure length")
  fix s r
  assume "dot_digits (skip s) = Some r"
  then have "length r < length (skip s)" by (rule length_dot_digits)
  also have "\<dots> \<le> length s" by simp
  finally show "(r, s) \<in> measure length" by simp
qed simp

declare dot_digits_more.simps [simp del]

definition dot_digits_rep :: "string \<Rightarrow> string" where
  "dot_digits_rep s = (case dot_digits s of None \<Rightarrow> s | Some r \<Rightarrow> dot_digits_more r)"

definition version :: "string \<Rightarrow> (string \<times> string) option" where
  "version s = do {
     r1 \<leftarrow> lit ''v'' s;
     r2 \<leftarrow> digits1 (skip r1);
     let r3 = dot_digits_rep (skip r2);
     Some (span s r3, r3)
   }"

subsection \<open>String literals and delimiters\<close>

text \<open>\<^verbatim>\<open>string = _{ "\"" ~ (("\\\"" | (!"\"" ~ ANY))*) ~ "\"" }\<close>\<close>

definition string_item :: "string \<Rightarrow> string option" where
  "string_item s =
     (case lit [backslash, quote] s of
        Some r \<Rightarrow> Some r
      | None \<Rightarrow> (case lit [quote] s of Some _ \<Rightarrow> None | None \<Rightarrow> ANY (skip s)))"

lemma length_ANY: "ANY s = Some r \<Longrightarrow> length r < length s"
  by (cases s) auto

lemma length_string_item: "string_item s = Some r \<Longrightarrow> length r < length s"
proof -
  assume a: "string_item s = Some r"
  show ?thesis
  proof (cases "lit [backslash, quote] s")
    case (Some r')
    then show ?thesis using a length_lit [OF Some] by (simp add: string_item_def)
  next
    case None
    then have "ANY (skip s) = Some r"
      using a by (simp add: string_item_def split: option.splits)
    then have "length r < length (skip s)" by (rule length_ANY)
    also have "\<dots> \<le> length s" by simp
    finally show ?thesis .
  qed
qed

function string_items_more :: "string \<Rightarrow> string" where
  "string_items_more s =
     (case string_item (skip s) of None \<Rightarrow> s | Some r \<Rightarrow> string_items_more r)"
  by pat_completeness auto
termination
proof (relation "measure length")
  fix s r
  assume "string_item (skip s) = Some r"
  then have "length r < length (skip s)" by (rule length_string_item)
  also have "\<dots> \<le> length s" by simp
  finally show "(r, s) \<in> measure length" by simp
qed simp

declare string_items_more.simps [simp del]

definition string_items :: "string \<Rightarrow> string" where
  "string_items s = (case string_item s of None \<Rightarrow> s | Some r \<Rightarrow> string_items_more r)"

definition string :: "string \<Rightarrow> (string \<times> string) option" where
  "string s = do {
     r1 \<leftarrow> lit [quote] s;
     let r2 = string_items (skip r1);
     r3 \<leftarrow> lit [quote] (skip r2);
     Some (span s r3, r3)
   }"

text \<open>\<^verbatim>\<open>delimiter = { "\"" ~ (!"\"" ~ ANY)* ~ "\"" }\<close>\<close>

definition delimiter_item :: "string \<Rightarrow> string option" where
  "delimiter_item s = (case lit [quote] s of Some _ \<Rightarrow> None | None \<Rightarrow> ANY (skip s))"

lemma length_delimiter_item: "delimiter_item s = Some r \<Longrightarrow> length r < length s"
proof -
  assume "delimiter_item s = Some r"
  then have "ANY (skip s) = Some r"
    by (simp add: delimiter_item_def split: option.splits)
  then have "length r < length (skip s)" by (rule length_ANY)
  also have "\<dots> \<le> length s" by simp
  finally show ?thesis .
qed

function delimiter_items_more :: "string \<Rightarrow> string" where
  "delimiter_items_more s =
     (case delimiter_item (skip s) of None \<Rightarrow> s | Some r \<Rightarrow> delimiter_items_more r)"
  by pat_completeness auto
termination
proof (relation "measure length")
  fix s r
  assume "delimiter_item (skip s) = Some r"
  then have "length r < length (skip s)" by (rule length_delimiter_item)
  also have "\<dots> \<le> length s" by simp
  finally show "(r, s) \<in> measure length" by simp
qed simp

declare delimiter_items_more.simps [simp del]

definition delimiter_items :: "string \<Rightarrow> string" where
  "delimiter_items s =
     (case delimiter_item s of None \<Rightarrow> s | Some r \<Rightarrow> delimiter_items_more r)"

definition delimiter :: "string \<Rightarrow> (string \<times> string) option" where
  "delimiter s = do {
     r1 \<leftarrow> lit [quote] s;
     let r2 = delimiter_items (skip r1);
     r3 \<leftarrow> lit [quote] (skip r2);
     Some (span s r3, r3)
   }"

subsection \<open>Params, values and expressions\<close>

text \<open>
  Ordered choice \<open>a | b\<close> on the results of the two alternatives at one position, and
  the node a rule builds from the text or value of the alternative that matched.
\<close>

definition choice :: "'a option \<Rightarrow> 'a option \<Rightarrow> 'a option" where
  "choice a b = (case a of Some x \<Rightarrow> Some x | None \<Rightarrow> b)"

definition node :: "('a \<Rightarrow> 'b) \<Rightarrow> ('a \<times> string) option \<Rightarrow> ('b \<times> string) option" where
  "node f a = (case a of Some (x, r) \<Rightarrow> Some (f x, r) | None \<Rightarrow> None)"

text \<open>\<^verbatim>\<open>boolean = { "true" | "false" }\<close>\<close>

definition boolean :: "string \<Rightarrow> (bool \<times> string) option" where
  "boolean s =
     choice (do { r \<leftarrow> lit ''true'' s; Some (True, r) })
            (do { r \<leftarrow> lit ''false'' s; Some (False, r) })"

text \<open>\<^verbatim>\<open>register = { "$" ~ identifier }\<close>\<close>

definition register :: "string \<Rightarrow> (string \<times> string) option" where
  "register s = do { r \<leftarrow> lit ''$'' s; identifier_rule (skip r) }"

text \<open>
  \<^verbatim>\<open>param = { string | number | boolean | identifier | register }\<close> and
  \<^verbatim>\<open>value = { string | number | boolean | identifier | register }\<close>
\<close>

definition param :: "string \<Rightarrow> (param \<times> string) option" where
  "param s =
     choice (node StringLiteral (string s))
    (choice (node IntegerLiteral (number s))
    (choice (node BooleanLiteral (boolean s))
    (choice (node Identifier (identifier_rule s))
            (node RegisterReference (register s)))))"

definition value_rule :: "string \<Rightarrow> (param \<times> string) option" where
  "value_rule s =
     choice (node StringLiteral (string s))
    (choice (node IntegerLiteral (number s))
    (choice (node BooleanLiteral (boolean s))
    (choice (node Identifier (identifier_rule s))
            (node RegisterReference (register s)))))"

text \<open>\<^verbatim>\<open>simple_expression = { identifier | number | boolean | string | register }\<close>\<close>

definition simple_expression :: "string \<Rightarrow> (param \<times> string) option" where
  "simple_expression s =
     choice (node Identifier (identifier_rule s))
    (choice (node IntegerLiteral (number s))
    (choice (node BooleanLiteral (boolean s))
    (choice (node StringLiteral (string s))
            (node RegisterReference (register s)))))"

text \<open>\<^verbatim>\<open>comparison_operator = { "==" | "!=" | ">" | "<" | ">=" | "<=" }\<close>\<close>

definition operator :: "string \<Rightarrow> comparison \<Rightarrow> string \<Rightarrow> (comparison \<times> string) option" where
  "operator p c s = do { r \<leftarrow> lit p s; Some (c, r) }"

definition comparison_operator :: "string \<Rightarrow> (comparison \<times> string) option" where
  "comparison_operator s =
     choice (operator ''=='' Equal s)
    (choice (operator ''!='' NotEqual s)
    (choice (operator ''>'' Greater s)
    (choice (operator ''<'' Less s)
    (choice (operator ''>='' GreaterEqual s)
            (operator ''<='' LessEqual s)))))"

text \<open>\<^verbatim>\<open>range_expression = { identifier ~ ".." ~ identifier }\<close>\<close>

definition range_expression :: "string \<Rightarrow> ((string \<times> string) \<times> string) option" where
  "range_expression s = do {
     (a, r1) \<leftarrow> identifier_rule s;
     r2 \<leftarrow> lit ''..'' (skip r1);
     (b, r3) \<leftarrow> identifier_rule (skip r2);
     Some ((a, b), r3)
   }"

text \<open>
  \<^verbatim>\<open>expression = { range_expression | simple_expression ~ (comparison_operator ~ simple_expression)? }\<close>
\<close>

definition comparison_tail :: "string \<Rightarrow> ((comparison \<times> param) \<times> string) option" where
  "comparison_tail s = do {
     (c, r1) \<leftarrow> comparison_operator s;
     (y, r2) \<leftarrow> simple_expression (skip r1);
     Some ((c, y), r2)
   }"

definition expression :: "string \<Rightarrow> (expression \<times> string) option" where
  "expression s =
     choice (node (\<lambda>(a, b). RangeExpression a b) (range_expression s))
       (do {
          (x, r1) \<leftarrow> simple_expression s;
          choice (node (\<lambda>(c, y). Comparison x c y) (comparison_tail (skip r1)))
                 (Some (SimpleExpression x, skip r1))
        })"

text \<open>
  \<^verbatim>\<open>split_expression = { (register | identifier | string) ~ ".split(" ~ delimiter ~ ")" }\<close>
\<close>

definition split_source :: "string \<Rightarrow> (param \<times> string) option" where
  "split_source s =
     choice (node RegisterReference (register s))
    (choice (node Identifier (identifier_rule s))
            (node StringLiteral (string s)))"

definition split_expression :: "string \<Rightarrow> ((param \<times> string) \<times> string) option" where
  "split_expression s = do {
     (x, r1) \<leftarrow> split_source s;
     r2 \<leftarrow> lit ''.split('' (skip r1);
     (d, r3) \<leftarrow> delimiter (skip r2);
     r4 \<leftarrow> lit '')'' (skip r3);
     Some ((x, d), r4)
   }"

subsection \<open>Calls, actions and register operations\<close>

text \<open>The argument list \<^verbatim>\<open>(param ~ ("," ~ param)*)?\<close> of a call or a command.\<close>

definition comma_param :: "string \<Rightarrow> (param \<times> string) option" where
  "comma_param s = do { r \<leftarrow> lit '','' s; param (skip r) }"

lemma choice_Some: "choice a b = Some x \<Longrightarrow> a = Some x \<or> (a = None \<and> b = Some x)"
  by (cases a) (simp_all add: choice_def)

lemma node_Some: "node f a = Some (y, r) \<Longrightarrow> \<exists>x. a = Some (x, r) \<and> y = f x"
  by (cases a) (auto simp: node_def)

lemma length_identifier_rule: "identifier_rule s = Some (n, r) \<Longrightarrow> length r < length s"
proof -
  assume a: "identifier_rule s = Some (n, r)"
  then have n: "takeWhile identifier_char s = n" and r: "r = dropWhile identifier_char s"
    and ne: "n \<noteq> []"
    by (auto simp: identifier_rule_def split: list.splits)
  have "length n + length r = length s"
    using takeWhile_dropWhile_id [of identifier_char s] n r by (metis length_append)
  then show ?thesis using ne by (cases n) auto
qed

lemma length_string_items_more [simp]: "length (string_items_more s) \<le> length s"
proof (induction s rule: string_items_more.induct)
  case (1 s)
  show ?case
  proof (cases "string_item (skip s)")
    case None
    then show ?thesis by (simp add: string_items_more.simps [of s])
  next
    case (Some r)
    have "length (string_items_more r) \<le> length r" using 1 Some by simp
    also have "\<dots> < length (skip s)" using Some by (rule length_string_item)
    also have "\<dots> \<le> length s" by simp
    finally show ?thesis using Some by (simp add: string_items_more.simps [of s])
  qed
qed

lemma length_string_items [simp]: "length (string_items s) \<le> length s"
proof (cases "string_item s")
  case None
  then show ?thesis by (simp add: string_items_def)
next
  case (Some r)
  have "length (string_items_more r) \<le> length r" by simp
  also have "\<dots> < length s" using Some by (rule length_string_item)
  finally show ?thesis using Some by (simp add: string_items_def)
qed

lemma length_string: "string s = Some (x, r) \<Longrightarrow> length r < length s"
proof -
  assume a: "string s = Some (x, r)"
  then obtain r1 where l1: "lit [quote] s = Some r1"
    and l3: "lit [quote] (skip (string_items (skip r1))) = Some r"
    by (auto simp: string_def Let_def split: bind_splits)
  have "length r \<le> length (skip (string_items (skip r1)))" using length_lit [OF l3] by simp
  also have "\<dots> \<le> length (string_items (skip r1))" by simp
  also have "\<dots> \<le> length (skip r1)" by simp
  also have "\<dots> \<le> length r1" by simp
  also have "\<dots> < length s" using length_lit [OF l1] by simp
  finally show ?thesis .
qed

lemma length_delimiter_items_more [simp]: "length (delimiter_items_more s) \<le> length s"
proof (induction s rule: delimiter_items_more.induct)
  case (1 s)
  show ?case
  proof (cases "delimiter_item (skip s)")
    case None
    then show ?thesis by (simp add: delimiter_items_more.simps [of s])
  next
    case (Some r)
    have "length (delimiter_items_more r) \<le> length r" using 1 Some by simp
    also have "\<dots> < length (skip s)" using Some by (rule length_delimiter_item)
    also have "\<dots> \<le> length s" by simp
    finally show ?thesis using Some by (simp add: delimiter_items_more.simps [of s])
  qed
qed

lemma length_delimiter_items [simp]: "length (delimiter_items s) \<le> length s"
proof (cases "delimiter_item s")
  case None
  then show ?thesis by (simp add: delimiter_items_def)
next
  case (Some r)
  have "length (delimiter_items_more r) \<le> length r" by simp
  also have "\<dots> < length s" using Some by (rule length_delimiter_item)
  finally show ?thesis using Some by (simp add: delimiter_items_def)
qed

lemma length_delimiter: "delimiter s = Some (x, r) \<Longrightarrow> length r < length s"
proof -
  assume a: "delimiter s = Some (x, r)"
  then obtain r1 where l1: "lit [quote] s = Some r1"
    and l3: "lit [quote] (skip (delimiter_items (skip r1))) = Some r"
    by (auto simp: delimiter_def Let_def split: bind_splits)
  have "length r \<le> length (skip (delimiter_items (skip r1)))" using length_lit [OF l3] by simp
  also have "\<dots> \<le> length (delimiter_items (skip r1))" by simp
  also have "\<dots> \<le> length (skip r1)" by simp
  also have "\<dots> \<le> length r1" by simp
  also have "\<dots> < length s" using length_lit [OF l1] by simp
  finally show ?thesis .
qed

lemma length_number: "number s = Some (x, r) \<Longrightarrow> length r < length s"
  by (auto simp: number_def split: bind_splits dest: length_digits1)

lemma length_boolean: "boolean s = Some (x, r) \<Longrightarrow> length r < length s"
  by (auto simp: boolean_def dest!: choice_Some length_lit split: bind_splits)

lemma length_register: "register s = Some (x, r) \<Longrightarrow> length r < length s"
proof -
  assume "register s = Some (x, r)"
  then obtain r1 where l: "lit ''$'' s = Some r1" and i: "identifier_rule (skip r1) = Some (x, r)"
    by (auto simp: register_def split: bind_splits)
  have "length r < length (skip r1)" using i by (rule length_identifier_rule)
  also have "\<dots> \<le> length r1" by simp
  also have "\<dots> \<le> length s" using length_lit [OF l] by simp
  finally show ?thesis .
qed

lemma length_param: "param s = Some (x, r) \<Longrightarrow> length r < length s"
  unfolding param_def
  by (auto dest!: choice_Some node_Some
      dest: length_string length_number length_boolean length_identifier_rule length_register)

lemma length_value_rule: "value_rule s = Some (x, r) \<Longrightarrow> length r < length s"
  unfolding value_rule_def
  by (auto dest!: choice_Some node_Some
      dest: length_string length_number length_boolean length_identifier_rule length_register)

lemma length_simple_expression: "simple_expression s = Some (x, r) \<Longrightarrow> length r < length s"
  unfolding simple_expression_def
  by (auto dest!: choice_Some node_Some
      dest: length_string length_number length_boolean length_identifier_rule length_register)

lemma length_comma_param: "comma_param s = Some (x, r) \<Longrightarrow> length r < length s"
proof -
  assume "comma_param s = Some (x, r)"
  then obtain r1 where l: "lit '','' s = Some r1" and i: "param (skip r1) = Some (x, r)"
    by (auto simp: comma_param_def split: bind_splits)
  have "length r < length (skip r1)" using i by (rule length_param)
  also have "\<dots> \<le> length r1" by simp
  also have "\<dots> \<le> length s" using length_lit [OF l] by simp
  finally show ?thesis .
qed

function comma_params_more :: "string \<Rightarrow> param list \<times> string" where
  "comma_params_more s =
     (case comma_param (skip s) of
        None \<Rightarrow> ([], s)
      | Some (x, r) \<Rightarrow> (case comma_params_more r of (xs, r') \<Rightarrow> (x # xs, r')))"
  by pat_completeness auto
termination
proof (relation "measure length")
  fix s y x r
  assume "comma_param (skip s) = Some y" and "(x, r) = y"
  then have "length r < length (skip s)" using length_comma_param by metis
  also have "\<dots> \<le> length s" by simp
  finally show "(r, s) \<in> measure length" by simp
qed simp

declare comma_params_more.simps [simp del]

definition comma_params :: "string \<Rightarrow> param list \<times> string" where
  "comma_params s =
     (case comma_param s of
        None \<Rightarrow> ([], s)
      | Some (x, r) \<Rightarrow> (case comma_params_more r of (xs, r') \<Rightarrow> (x # xs, r')))"

definition params :: "string \<Rightarrow> param list \<times> string" where
  "params s =
     (case param s of
        None \<Rightarrow> ([], s)
      | Some (x, r) \<Rightarrow> (case comma_params (skip r) of (xs, r') \<Rightarrow> (x # xs, r')))"

text \<open>
  \<^verbatim>\<open>external_fn_call = { "call" ~ identifier ~ "(" ~ (param ~ ("," ~ param)*)? ~ ")" }\<close>
\<close>

definition external_fn_call :: "string \<Rightarrow> ((string \<times> param list) \<times> string) option" where
  "external_fn_call s = do {
     r1 \<leftarrow> lit ''call'' s;
     (f, r2) \<leftarrow> identifier_rule (skip r1);
     r3 \<leftarrow> lit ''('' (skip r2);
     (xs, r4) \<leftarrow> Some (params (skip r3));
     r5 \<leftarrow> lit '')'' (skip r4);
     Some ((f, xs), r5)
   }"

text \<open>\<^verbatim>\<open>command = { identifier }\<close>\<close>

definition command :: "string \<Rightarrow> (string \<times> string) option" where
  "command s = identifier_rule s"

text \<open>
  \<^verbatim>\<open>action = { external_fn_call | command ~ "(" ~ (param ~ ("," ~ param)*)? ~ ")" }\<close>
\<close>

definition command_call :: "string \<Rightarrow> ((string \<times> param list) \<times> string) option" where
  "command_call s = do {
     (c, r1) \<leftarrow> command s;
     r2 \<leftarrow> lit ''('' (skip r1);
     (xs, r3) \<leftarrow> Some (params (skip r2));
     r4 \<leftarrow> lit '')'' (skip r3);
     Some ((c, xs), r4)
   }"

definition action :: "string \<Rightarrow> (action \<times> string) option" where
  "action s =
     choice (node (\<lambda>(f, xs). ExternalFunctionCall f xs) (external_fn_call s))
            (node (\<lambda>(c, xs). Command c xs) (command_call s))"

text \<open>\<^verbatim>\<open>register_operation = { register ~ "=" ~ (external_fn_call | value) }\<close>\<close>

definition assigned :: "string \<Rightarrow> (assigned \<times> string) option" where
  "assigned s =
     choice (node (\<lambda>(f, xs). AssignedCall f xs) (external_fn_call s))
            (node AssignedValue (value_rule s))"

definition register_operation :: "string \<Rightarrow> ((string \<times> assigned) \<times> string) option" where
  "register_operation s = do {
     (x, r1) \<leftarrow> register s;
     r2 \<leftarrow> lit ''='' (skip r1);
     (v, r3) \<leftarrow> assigned (skip r2);
     Some ((x, v), r3)
   }"

subsection \<open>Statements, steps and the workflow\<close>

text \<open>The iterable of a loop: \<^verbatim>\<open>(split_expression | range_expression)\<close>.\<close>

definition iterable :: "string \<Rightarrow> (iterable \<times> string) option" where
  "iterable s =
     choice (node (\<lambda>(x, d). SplitExpression x d) (split_expression s))
            (node (\<lambda>(a, b). RangeIterable a b) (range_expression s))"

lemma length_range_expression: "range_expression s = Some (x, r) \<Longrightarrow> length r < length s"
proof -
  assume "range_expression s = Some (x, r)"
  then obtain a r1 r2 b where i1: "identifier_rule s = Some (a, r1)"
    and l: "lit ''..'' (skip r1) = Some r2" and i2: "identifier_rule (skip r2) = Some (b, r)"
    by (auto simp: range_expression_def split: bind_splits)
  have "length r < length (skip r2)" using i2 by (rule length_identifier_rule)
  also have "\<dots> \<le> length r2" by simp
  also have "\<dots> \<le> length (skip r1)" using length_lit [OF l] by simp
  also have "\<dots> \<le> length r1" by simp
  also have "\<dots> \<le> length s" using length_identifier_rule [OF i1] by simp
  finally show ?thesis .
qed

lemma length_comparison_operator:
  "comparison_operator s = Some (x, r) \<Longrightarrow> length r < length s"
  unfolding comparison_operator_def operator_def
  by (auto dest!: choice_Some length_lit split: bind_splits)

lemma length_comparison_tail: "comparison_tail s = Some (x, r) \<Longrightarrow> length r < length s"
proof -
  assume "comparison_tail s = Some (x, r)"
  then obtain c r1 y where o: "comparison_operator s = Some (c, r1)"
    and e: "simple_expression (skip r1) = Some (y, r)"
    by (auto simp: comparison_tail_def split: bind_splits)
  have "length r < length (skip r1)" using e by (rule length_simple_expression)
  also have "\<dots> \<le> length r1" by simp
  also have "\<dots> \<le> length s" using length_comparison_operator [OF o] by simp
  finally show ?thesis .
qed

lemma length_expression: "expression s = Some (x, r) \<Longrightarrow> length r < length s"
proof -
  assume a: "expression s = Some (x, r)"
  show ?thesis
  proof (cases "range_expression s")
    case (Some y)
    then show ?thesis using a
      by (cases y) (auto simp: expression_def choice_def node_def dest: length_range_expression)
  next
    case None
    then obtain y r1 where e: "simple_expression s = Some (y, r1)"
      and c: "choice (node (\<lambda>(c, z). Comparison y c z) (comparison_tail (skip r1)))
                 (Some (SimpleExpression y, skip r1)) = Some (x, r)"
      using a by (auto simp: expression_def choice_def node_def split: bind_splits)
    have "length r \<le> length (skip r1)"
      using c by (auto dest!: choice_Some node_Some dest: length_comparison_tail)
    also have "\<dots> \<le> length r1" by simp
    also have "\<dots> < length s" using e by (rule length_simple_expression)
    finally show ?thesis .
  qed
qed

lemma length_split_source: "split_source s = Some (x, r) \<Longrightarrow> length r < length s"
  unfolding split_source_def
  by (auto dest!: choice_Some node_Some
      dest: length_string length_identifier_rule length_register)

lemma length_split_expression: "split_expression s = Some (x, r) \<Longrightarrow> length r < length s"
proof -
  assume "split_expression s = Some (x, r)"
  then obtain y r1 r2 d r3 where s: "split_source s = Some (y, r1)"
    and l: "lit ''.split('' (skip r1) = Some r2" and d: "delimiter (skip r2) = Some (d, r3)"
    and l': "lit '')'' (skip r3) = Some r"
    by (auto simp: split_expression_def split: bind_splits)
  have "length r \<le> length (skip r3)" using length_lit [OF l'] by simp
  also have "\<dots> \<le> length r3" by simp
  also have "\<dots> \<le> length (skip r2)" using length_delimiter [OF d] by simp
  also have "\<dots> \<le> length r2" by simp
  also have "\<dots> \<le> length (skip r1)" using length_lit [OF l] by simp
  also have "\<dots> \<le> length r1" by simp
  also have "\<dots> < length s" using s by (rule length_split_source)
  finally show ?thesis .
qed

lemma length_iterable: "iterable s = Some (x, r) \<Longrightarrow> length r < length s"
  unfolding iterable_def
  by (auto dest!: choice_Some node_Some dest: length_split_expression length_range_expression)

lemma length_comma_params_more [simp]: "length (snd (comma_params_more s)) \<le> length s"
proof (induction s rule: comma_params_more.induct)
  case (1 s)
  show ?case
  proof (cases "comma_param (skip s)")
    case None
    then show ?thesis by (simp add: comma_params_more.simps [of s])
  next
    case (Some y)
    obtain x r where y: "y = (x, r)" by (cases y)
    have "length (snd (comma_params_more r)) \<le> length r" using 1 Some y by simp
    also have "\<dots> < length (skip s)" using Some y length_comma_param by simp
    also have "\<dots> \<le> length s" by simp
    finally show ?thesis
      using Some y by (auto simp: comma_params_more.simps [of s] split: prod.splits)
  qed
qed

lemma length_comma_params [simp]: "length (snd (comma_params s)) \<le> length s"
proof (cases "comma_param s")
  case None
  then show ?thesis by (simp add: comma_params_def)
next
  case (Some y)
  obtain x r where y: "y = (x, r)" by (cases y)
  have "length (snd (comma_params_more r)) \<le> length r" by simp
  also have "\<dots> < length s" using Some y length_comma_param by simp
  finally show ?thesis using Some y by (auto simp: comma_params_def split: prod.splits)
qed

lemma length_params [simp]: "length (snd (params s)) \<le> length s"
proof (cases "param s")
  case None
  then show ?thesis by (simp add: params_def)
next
  case (Some y)
  obtain x r where y: "y = (x, r)" by (cases y)
  have "length (snd (comma_params (skip r))) \<le> length (skip r)" by simp
  also have "\<dots> \<le> length r" by simp
  also have "\<dots> < length s" using Some y length_param by simp
  finally show ?thesis using Some y by (auto simp: params_def split: prod.splits)
qed

lemma length_external_fn_call: "external_fn_call s = Some (x, r) \<Longrightarrow> length r < length s"
proof -
  assume "external_fn_call s = Some (x, r)"
  then obtain r1 f r2 r3 where l1: "lit ''call'' s = Some r1"
    and i: "identifier_rule (skip r1) = Some (f, r2)"
    and l3: "lit ''('' (skip r2) = Some r3"
    and l5: "lit '')'' (skip (snd (params (skip r3)))) = Some r"
    by (auto simp: external_fn_call_def split: bind_splits prod.splits)
  have "length r \<le> length (skip (snd (params (skip r3))))" using length_lit [OF l5] by simp
  also have "\<dots> \<le> length (snd (params (skip r3)))" by simp
  also have "\<dots> \<le> length (skip r3)" by simp
  also have "\<dots> \<le> length r3" by simp
  also have "\<dots> \<le> length (skip r2)" using length_lit [OF l3] by simp
  also have "\<dots> \<le> length r2" by simp
  also have "\<dots> \<le> length (skip r1)" using length_identifier_rule [OF i] by simp
  also have "\<dots> \<le> length r1" by simp
  also have "\<dots> < length s" using length_lit [OF l1] by simp
  finally show ?thesis .
qed

lemma length_command_call: "command_call s = Some (x, r) \<Longrightarrow> length r < length s"
proof -
  assume "command_call s = Some (x, r)"
  then obtain c r1 r2 where i: "identifier_rule s = Some (c, r1)"
    and l2: "lit ''('' (skip r1) = Some r2"
    and l4: "lit '')'' (skip (snd (params (skip r2)))) = Some r"
    by (auto simp: command_call_def command_def split: bind_splits prod.splits)
  have "length r \<le> length (skip (snd (params (skip r2))))" using length_lit [OF l4] by simp
  also have "\<dots> \<le> length (snd (params (skip r2)))" by simp
  also have "\<dots> \<le> length (skip r2)" by simp
  also have "\<dots> \<le> length r2" by simp
  also have "\<dots> \<le> length (skip r1)" using length_lit [OF l2] by simp
  also have "\<dots> \<le> length r1" by simp
  also have "\<dots> < length s" using i by (rule length_identifier_rule)
  finally show ?thesis .
qed

lemma length_action: "action s = Some (x, r) \<Longrightarrow> length r < length s"
  unfolding action_def
  by (auto dest!: choice_Some node_Some dest: length_external_fn_call length_command_call)

lemma length_assigned: "assigned s = Some (x, r) \<Longrightarrow> length r < length s"
  unfolding assigned_def
  by (auto dest!: choice_Some node_Some dest: length_external_fn_call length_value_rule)

lemma length_register_operation:
  "register_operation s = Some (x, r) \<Longrightarrow> length r < length s"
proof -
  assume "register_operation s = Some (x, r)"
  then obtain y r1 r2 v where g: "register s = Some (y, r1)"
    and l: "lit ''='' (skip r1) = Some r2" and a: "assigned (skip r2) = Some (v, r)"
    by (auto simp: register_operation_def split: bind_splits)
  have "length r < length (skip r2)" using a by (rule length_assigned)
  also have "\<dots> \<le> length r2" by simp
  also have "\<dots> \<le> length (skip r1)" using length_lit [OF l] by simp
  also have "\<dots> \<le> length r1" by simp
  also have "\<dots> \<le> length s" using length_register [OF g] by simp
  finally show ?thesis .
qed

text \<open>
  \<^verbatim>\<open>step_body = { (condition | register_operation | action | for_loop)+ }\<close>,
  \<^verbatim>\<open>condition = { "if" ~ expression ~ "{" ~ step_body ~ "}" }\<close> and
  \<^verbatim>\<open>for_loop = { "for" ~ identifier ~ "in" ~ (split_expression | range_expression) ~ "{" ~ step_body ~ "}" }\<close>.
  \<open>step_body_item\<close> is the choice that \<^verbatim>\<open>step_body\<close> repeats,
  \<open>step_body_rep\<close> the repetition after the first step_body_item, and
  \<open>step_body_more\<close> its rounds of whitespace and one more.
\<close>

function (domintros) step_body :: "string \<Rightarrow> (statement list \<times> string) option"
  and step_body_more :: "string \<Rightarrow> statement list \<times> string"
  and step_body_rep :: "string \<Rightarrow> statement list \<times> string"
  and step_body_item :: "string \<Rightarrow> (statement \<times> string) option"
  and condition :: "string \<Rightarrow> ((expression \<times> statement list) \<times> string) option"
  and for_loop :: "string \<Rightarrow> ((string \<times> iterable \<times> statement list) \<times> string) option"
where
  "step_body s = do {
     (x, r) \<leftarrow> step_body_item s;
     (xs, r') \<leftarrow> Some (step_body_rep (skip r));
     Some (x # xs, r')
   }"
| "step_body_rep s =
     (case step_body_item s of
        None \<Rightarrow> ([], s)
      | Some (x, r) \<Rightarrow> (case step_body_more r of (xs, r') \<Rightarrow> (x # xs, r')))"
| "step_body_more s =
     (case step_body_item (skip s) of
        None \<Rightarrow> ([], s)
      | Some (x, r) \<Rightarrow> (case step_body_more r of (xs, r') \<Rightarrow> (x # xs, r')))"
| "step_body_item s =
     choice (node (\<lambda>(e, b). Condition e b) (condition s))
    (choice (node (\<lambda>(x, v). RegisterAssignment x v) (register_operation s))
    (choice (node Action (action s))
            (node (\<lambda>(x, i, b). ForLoop x i b) (for_loop s))))"
| "condition s = do {
     r1 \<leftarrow> lit ''if'' s;
     (e, r2) \<leftarrow> expression (skip r1);
     r3 \<leftarrow> lit ''{'' (skip r2);
     (b, r4) \<leftarrow> step_body (skip r3);
     r5 \<leftarrow> lit ''}'' (skip r4);
     Some ((e, b), r5)
   }"
| "for_loop s = do {
     r1 \<leftarrow> lit ''for'' s;
     (x, r2) \<leftarrow> identifier_rule (skip r1);
     r3 \<leftarrow> lit ''in'' (skip r2);
     (i, r4) \<leftarrow> iterable (skip r3);
     r5 \<leftarrow> lit ''{'' (skip r4);
     (b, r6) \<leftarrow> step_body (skip r5);
     r7 \<leftarrow> lit ''}'' (skip r6);
     Some ((x, i, b), r7)
   }"
  by pat_completeness auto



lemma length_step_body_dom:
  "step_body_step_body_more_step_body_rep_step_body_item_condition_for_loop_dom (Inl (Inl s1)) \<Longrightarrow>
     (\<forall>v r. step_body s1 = Some (v, r) \<longrightarrow> length r < length s1)"
  "step_body_step_body_more_step_body_rep_step_body_item_condition_for_loop_dom (Inl (Inr (Inl s2))) \<Longrightarrow>
     length (snd (step_body_more s2)) \<le> length s2"
  "step_body_step_body_more_step_body_rep_step_body_item_condition_for_loop_dom (Inl (Inr (Inr s3))) \<Longrightarrow>
     length (snd (step_body_rep s3)) \<le> length s3"
  "step_body_step_body_more_step_body_rep_step_body_item_condition_for_loop_dom (Inr (Inl s4)) \<Longrightarrow>
     (\<forall>v r. step_body_item s4 = Some (v, r) \<longrightarrow> length r < length s4)"
  "step_body_step_body_more_step_body_rep_step_body_item_condition_for_loop_dom (Inr (Inr (Inl s5))) \<Longrightarrow>
     (\<forall>v r. condition s5 = Some (v, r) \<longrightarrow> length r < length s5)"
  "step_body_step_body_more_step_body_rep_step_body_item_condition_for_loop_dom (Inr (Inr (Inr s6))) \<Longrightarrow>
     (\<forall>v r. for_loop s6 = Some (v, r) \<longrightarrow> length r < length s6)"
proof (induct rule: step_body_step_body_more_step_body_rep_step_body_item_condition_for_loop.pinduct)
  case (1 s)
  show ?case
  proof (intro allI impI)
    fix v r
    assume a: "step_body s = Some (v, r)"
    then obtain x r1 where st: "step_body_item s = Some (x, r1)"
      and r: "r = snd (step_body_rep (skip r1))"
      by (auto simp: step_body.psimps [OF 1(1)] split: bind_splits prod.splits)
    have "length r \<le> length (skip r1)" unfolding r using 1(3) [OF st refl] .
    also have "\<dots> \<le> length r1" by simp
    also have "\<dots> < length s" using 1(2) st by blast
    finally show "length r < length s" .
  qed
next
  case (2 s)
  show ?case
  proof (cases "step_body_item s")
    case None
    then show ?thesis by (simp add: step_body_rep.psimps [OF 2(1)])
  next
    case (Some y)
    obtain x r where y: "y = (x, r)" by (cases y)
    have "length (snd (step_body_more r)) \<le> length r" using 2(3) Some y by simp
    also have "\<dots> < length s" using 2(2) Some y by blast
    finally show ?thesis
      using Some y by (auto simp: step_body_rep.psimps [OF 2(1)] split: prod.splits)
  qed
next
  case (3 s)
  show ?case
  proof (cases "step_body_item (skip s)")
    case None
    then show ?thesis by (simp add: step_body_more.psimps [OF 3(1)])
  next
    case (Some y)
    obtain x r where y: "y = (x, r)" by (cases y)
    have "length (snd (step_body_more r)) \<le> length r" using 3(3) Some y by simp
    also have "\<dots> < length (skip s)" using 3(2) Some y by blast
    also have "\<dots> \<le> length s" by simp
    finally show ?thesis
      using Some y by (auto simp: step_body_more.psimps [OF 3(1)] split: prod.splits)
  qed
next
  case (4 s)
  show ?case
    using 4(2,3)
    by (auto simp: step_body_item.psimps [OF 4(1)] dest!: choice_Some node_Some
        dest: length_register_operation length_action)
next
  case (5 s)
  show ?case
  proof (intro allI impI)
    fix v r
    assume a: "condition s = Some (v, r)"
    then obtain r1 e r2 r3 b r4 where l1: "lit ''if'' s = Some r1"
      and e: "expression (skip r1) = Some (e, r2)"
      and l3: "lit ''{'' (skip r2) = Some r3"
      and b: "step_body (skip r3) = Some (b, r4)"
      and l5: "lit ''}'' (skip r4) = Some r"
      by (auto simp: condition.psimps [OF 5(1)] split: bind_splits)
    have "length r \<le> length (skip r4)" using length_lit [OF l5] by simp
    also have "\<dots> \<le> length r4" by simp
    also have "\<dots> \<le> length (skip r3)" using 5(2) [OF l1 e refl l3] b by (simp add: less_imp_le)
    also have "\<dots> \<le> length r3" by simp
    also have "\<dots> \<le> length (skip r2)" using length_lit [OF l3] by simp
    also have "\<dots> \<le> length r2" by simp
    also have "\<dots> \<le> length (skip r1)" using length_expression [OF e] by simp
    also have "\<dots> \<le> length r1" by simp
    also have "\<dots> < length s" using length_lit [OF l1] by simp
    finally show "length r < length s" .
  qed
next
  case (6 s)
  show ?case
  proof (intro allI impI)
    fix v r
    assume a: "for_loop s = Some (v, r)"
    then obtain r1 x r2 r3 i r4 r5 b r6 where l1: "lit ''for'' s = Some r1"
      and x: "identifier_rule (skip r1) = Some (x, r2)"
      and l3: "lit ''in'' (skip r2) = Some r3"
      and i: "iterable (skip r3) = Some (i, r4)"
      and l5: "lit ''{'' (skip r4) = Some r5"
      and b: "step_body (skip r5) = Some (b, r6)"
      and l7: "lit ''}'' (skip r6) = Some r"
      by (auto simp: for_loop.psimps [OF 6(1)] split: bind_splits)
    have "length r \<le> length (skip r6)" using length_lit [OF l7] by simp
    also have "\<dots> \<le> length r6" by simp
    also have "\<dots> \<le> length (skip r5)"
      using 6(2) [OF l1 x refl l3 i refl l5] b by (simp add: less_imp_le)
    also have "\<dots> \<le> length r5" by simp
    also have "\<dots> \<le> length (skip r4)" using length_lit [OF l5] by simp
    also have "\<dots> \<le> length r4" by simp
    also have "\<dots> \<le> length (skip r3)" using length_iterable [OF i] by simp
    also have "\<dots> \<le> length r3" by simp
    also have "\<dots> \<le> length (skip r2)" using length_lit [OF l3] by simp
    also have "\<dots> \<le> length r2" by simp
    also have "\<dots> \<le> length (skip r1)" using length_identifier_rule [OF x] by simp
    also have "\<dots> \<le> length r1" by simp
    also have "\<dots> < length s" using length_lit [OF l1] by simp
    finally show "length r < length s" .
  qed
qed


lemma step_body_total: "All step_body_step_body_more_step_body_rep_step_body_item_condition_for_loop_dom"
proof (relation "inv_image (less_than <*lex*> less_than)
    (\<lambda>x. case x of
       Inl (Inl s) \<Rightarrow> (length s, 2::nat)
     | Inl (Inr (Inl s)) \<Rightarrow> (length s, 2)
     | Inl (Inr (Inr s)) \<Rightarrow> (length s, 2)
     | Inr (Inl s) \<Rightarrow> (length s, 1)
     | Inr (Inr (Inl s)) \<Rightarrow> (length s, 0)
     | Inr (Inr (Inr s)) \<Rightarrow> (length s, 0))", goal_cases)
  case 1
  show ?case by (intro wf_inv_image wf_lex_prod wf_less_than)
next
  case (2 s)
  show ?case by simp
next
  case (3 s a x y)
  then have "length y < length s" using length_step_body_dom(4) by metis
  then have "length (skip y) < length s" by (rule le_less_trans [OF length_skip])
  then show ?case by simp
next
  case (4 s)
  show ?case by simp
next
  case (5 s x2 x y)
  then have "length y < length s" using length_step_body_dom(4) by metis
  then show ?case by simp
next
  case (6 s)
  have "length (skip s) < length s \<or> length (skip s) = length s"
    using length_skip [of s] by (simp only: le_less)
  then show ?case by auto
next
  case (7 s x2 x y)
  then have "length y < length (skip s)" using length_step_body_dom(4) by metis
  then have "length y < length s" by (rule less_le_trans [OF _ length_skip])
  then show ?case by simp
next
  case (8 s)
  show ?case by simp
next
  case (9 s)
  show ?case by simp
next
  case (10 s r1 a e r2 r3)
  have "length (skip r3) \<le> length r3" by simp
  also have "\<dots> \<le> length (skip r2)" using length_lit [OF 10(4)] by simp
  also have "\<dots> \<le> length r2" by simp
  also have "\<dots> \<le> length (skip r1)" using 10(2,3) length_expression by (metis less_imp_le)
  also have "\<dots> \<le> length r1" by simp
  also have "\<dots> < length s" using length_lit [OF 10(1)] by simp
  finally show ?case by simp
next
  case (11 s r1 a x r2 r3 b i r4 r5)
  have "length (skip r5) \<le> length r5" by simp
  also have "\<dots> \<le> length (skip r4)" using length_lit [OF 11(7)] by simp
  also have "\<dots> \<le> length r4" by simp
  also have "\<dots> \<le> length (skip r3)" using 11(5,6) length_iterable by (metis less_imp_le)
  also have "\<dots> \<le> length r3" by simp
  also have "\<dots> \<le> length (skip r2)" using length_lit [OF 11(4)] by simp
  also have "\<dots> \<le> length r2" by simp
  also have "\<dots> \<le> length (skip r1)" using 11(2,3) length_identifier_rule by (metis less_imp_le)
  also have "\<dots> \<le> length r1" by simp
  also have "\<dots> < length s" using length_lit [OF 11(1)] by simp
  finally show ?case by simp
qed

termination step_body
  by (rule step_body_total)

declare step_body.simps [simp del] step_body_rep.simps [simp del]
  step_body_more.simps [simp del] step_body_item.simps [simp del]
  condition.simps [simp del] for_loop.simps [simp del]

lemma length_step_body_item: "step_body_item s = Some (x, r) \<Longrightarrow> length r < length s"
  using length_step_body_dom(4) [OF spec [OF step_body_total]] by simp

lemma length_step_body_more [simp]: "length (snd (step_body_more s)) \<le> length s"
  by (rule length_step_body_dom(2) [OF spec [OF step_body_total]])

lemma length_step_body_rep [simp]: "length (snd (step_body_rep s)) \<le> length s"
  by (rule length_step_body_dom(3) [OF spec [OF step_body_total]])

lemma length_step_body: "step_body s = Some (x, r) \<Longrightarrow> length r < length s"
  using length_step_body_dom(1) [OF spec [OF step_body_total]] by simp

text \<open>\<^verbatim>\<open>step = { "step" ~ identifier ~ "{" ~ step_body ~ "}" }\<close>\<close>

definition step :: "string \<Rightarrow> (step \<times> string) option" where
  "step s = do {
     r1 \<leftarrow> lit ''step'' s;
     (n, r2) \<leftarrow> identifier_rule (skip r1);
     r3 \<leftarrow> lit ''{'' (skip r2);
     (b, r4) \<leftarrow> step_body (skip r3);
     r5 \<leftarrow> lit ''}'' (skip r4);
     Some (Step n b, r5)
   }"

lemma length_step: "step s = Some (x, r) \<Longrightarrow> length r < length s"
proof -
  assume "step s = Some (x, r)"
  then obtain r1 n r2 r3 b r4 where l1: "lit ''step'' s = Some r1"
    and i: "identifier_rule (skip r1) = Some (n, r2)"
    and l3: "lit ''{'' (skip r2) = Some r3"
    and b: "step_body (skip r3) = Some (b, r4)"
    and l5: "lit ''}'' (skip r4) = Some r"
    by (auto simp: step_def split: bind_splits)
  have "length r \<le> length (skip r4)" using length_lit [OF l5] by simp
  also have "\<dots> \<le> length r4" by simp
  also have "\<dots> \<le> length (skip r3)" using length_step_body [OF b] by simp
  also have "\<dots> \<le> length r3" by simp
  also have "\<dots> \<le> length (skip r2)" using length_lit [OF l3] by simp
  also have "\<dots> \<le> length r2" by simp
  also have "\<dots> \<le> length (skip r1)" using length_identifier_rule [OF i] by simp
  also have "\<dots> \<le> length r1" by simp
  also have "\<dots> < length s" using length_lit [OF l1] by simp
  finally show ?thesis .
qed

text \<open>\<^verbatim>\<open>step+\<close>: a step, whitespace, then \<^verbatim>\<open>step*\<close>.\<close>

function steps_more :: "string \<Rightarrow> step list \<times> string" where
  "steps_more s =
     (case step (skip s) of
        None \<Rightarrow> ([], s)
      | Some (x, r) \<Rightarrow> (case steps_more r of (xs, r') \<Rightarrow> (x # xs, r')))"
  by pat_completeness auto
termination
proof (relation "measure length")
  fix s y x r
  assume "step (skip s) = Some y" and "(x, r) = y"
  then have "length r < length (skip s)" using length_step by metis
  then have "length r < length s" by (rule less_le_trans [OF _ length_skip])
  then show "(r, s) \<in> measure length" by simp
qed simp

declare steps_more.simps [simp del]

definition steps_rep :: "string \<Rightarrow> step list \<times> string" where
  "steps_rep s =
     (case step s of
        None \<Rightarrow> ([], s)
      | Some (x, r) \<Rightarrow> (case steps_more r of (xs, r') \<Rightarrow> (x # xs, r')))"

definition steps1 :: "string \<Rightarrow> (step list \<times> string) option" where
  "steps1 s = do {
     (x, r) \<leftarrow> step s;
     (xs, r') \<leftarrow> Some (steps_rep (skip r));
     Some (x # xs, r')
   }"

text \<open>\<^verbatim>\<open>author_tag = _{ "@" ~ "@" ~ identity }\<close>\<close>

definition author_tag :: "string \<Rightarrow> (string \<times> string) option" where
  "author_tag s = do {
     r1 \<leftarrow> lit ''@'' s;
     r2 \<leftarrow> lit ''@'' (skip r1);
     identity (skip r2)
   }"

text \<open>
  \<^verbatim>\<open>workflow = { "workflow" ~ identifier ~ version ~ "{" ~ step+ ~ "}" ~ author_tag? ~ sticky_tag? }\<close>
\<close>

definition optional_author_tag :: "string \<Rightarrow> string option \<times> string" where
  "optional_author_tag s =
     (case author_tag s of None \<Rightarrow> (None, s) | Some (a, r) \<Rightarrow> (Some a, r))"

definition optional_sticky_tag :: "string \<Rightarrow> bool \<times> string" where
  "optional_sticky_tag s =
     (case sticky_tag s of None \<Rightarrow> (False, s) | Some r \<Rightarrow> (True, r))"

definition workflow :: "string \<Rightarrow> (workflow \<times> string) option" where
  "workflow s = do {
     r1 \<leftarrow> lit ''workflow'' s;
     (n, r2) \<leftarrow> identifier_rule (skip r1);
     (v, r3) \<leftarrow> version (skip r2);
     r4 \<leftarrow> lit ''{'' (skip r3);
     (ss, r5) \<leftarrow> steps1 (skip r4);
     r6 \<leftarrow> lit ''}'' (skip r5);
     (a, r7) \<leftarrow> Some (optional_author_tag (skip r6));
     (k, r8) \<leftarrow> Some (optional_sticky_tag (skip r7));
     Some (Workflow n v ss a k, r8)
   }"

subsection \<open>The entry point\<close>

text \<open>
  Modelled from the spec: \<open>parse(source) -> Workflow | ParseError{position, expected}\<close>.
  The function that calls the generated parser is not among the source files, and the
  error value is built by the parser generator's runtime. In the spec's words the parser
  enforces the grammar exactly and rejects malformed input with a located error:
  \<open>parse\<close> returns the workflow when the rule \<^verbatim>\<open>workflow\<close>, run at the first
  character of the source, matches the source up to its end, and the located error
  otherwise. The located error of a failing run is the parameter \<open>located\<close>.
\<close>

record parse_error =
  position :: nat
  expected :: "string set"

definition parse :: "(string \<Rightarrow> parse_error) \<Rightarrow> string \<Rightarrow> parse_error + workflow" where
  "parse located s =
     (case workflow s of
        Some (w, r) \<Rightarrow> if r = [] then Inr w else Inl (located s)
      | None \<Rightarrow> Inl (located s))"

text \<open>
  The spec's words for the version of a workflow: a string matching
  \<open>v<digits>(.<digits>)*\<close>, the character \<open>v\<close>, one or more digits, and zero or
  more groups of a dot and one or more digits. \<open>visible\<close> is a text without its
  whitespace characters.
\<close>

function version_groups :: "string \<Rightarrow> bool" where
  "version_groups [] = True"
| "version_groups (c # r) =
     (c = CHR ''.'' \<and> takeWhile ASCII_DIGIT r \<noteq> [] \<and> version_groups (dropWhile ASCII_DIGIT r))"
  by pat_completeness auto
termination
  by (relation "measure length") (auto simp: length_dropWhile_le less_Suc_eq_le)

definition version_pattern :: "string \<Rightarrow> bool" where
  "version_pattern s =
     (case s of
        [] \<Rightarrow> False
      | c # r \<Rightarrow> c = CHR ''v'' \<and> takeWhile ASCII_DIGIT r \<noteq> [] \<and>
          version_groups (dropWhile ASCII_DIGIT r))"

definition visible :: "string \<Rightarrow> string" where
  "visible s = filter (\<lambda>c. \<not> WHITESPACE c) s"


text \<open>
  The body of a string literal, between its quotes: escaped quotes (a backslash and a
  quote) and characters other than the quote; a backslash that is not part of an escaped
  quote does not stand at the end, where it would escape the closing quote.
\<close>

fun string_body :: "string \<Rightarrow> bool" where
  "string_body [] = True"
| "string_body [c] = (c \<noteq> quote \<and> c \<noteq> backslash)"
| "string_body (c # d # r) =
     (if c = backslash \<and> d = quote then string_body r else c \<noteq> quote \<and> string_body (d # r))"

subsection \<open>Texts of whitespace\<close>

text \<open>A text made of whitespace characters only.\<close>

definition blank :: "string \<Rightarrow> bool" where
  "blank w = list_all WHITESPACE w"

subsection \<open>Places between two tokens\<close>

text \<open>
  The literals of a source, as a reader of its characters finds them. \<open>literal_end\<close>
  reads the text after an opening quote up to the first quote that is not escaped, as
  the rule \<^verbatim>\<open>string\<close> does, and \<open>plain_end\<close> up to the first quote, as the rule
  \<^verbatim>\<open>delimiter\<close> does; both return the text after the closing quote.
  \<open>outside_literals\<close> holds of a text that, read from its start, ends outside a
  literal: each quote outside a literal opens a literal, and a literal that follows
  \<^verbatim>\<open>.split(\<close> has no escaped quote, so that both rules read it alike.
\<close>

fun literal_end :: "string \<Rightarrow> string option" where
  "literal_end [] = None"
| "literal_end [c] = (if c = quote then Some [] else None)"
| "literal_end (c # d # r) =
     (if c = quote then Some (d # r)
      else if c = backslash \<and> d = quote then literal_end r
      else literal_end (d # r))"

definition plain_end :: "string \<Rightarrow> string option" where
  "plain_end s = (case dropWhile (\<lambda>c. c \<noteq> quote) s of [] \<Rightarrow> None | c # r \<Rightarrow> Some r)"

lemma length_literal_end: "literal_end s = Some r \<Longrightarrow> length r < length s"
  by (induction s arbitrary: r rule: literal_end.induct) (auto split: if_splits)

function outside_literals :: "string \<Rightarrow> bool" where
  "outside_literals [] = True"
| "outside_literals (c # s) =
     (if c = quote then
        (case literal_end s of None \<Rightarrow> False | Some r \<Rightarrow> outside_literals r)
      else if prefix ''.split('' (c # s) then
        (case skip (drop 6 s) of
           [] \<Rightarrow> True
         | d # u \<Rightarrow>
             (if d = quote then
                (case literal_end u of
                   None \<Rightarrow> False
                 | Some r \<Rightarrow> plain_end u = Some r \<and> outside_literals r)
              else outside_literals (d # u)))
      else outside_literals s)"
  by pat_completeness auto
termination
proof (relation "measure length", goal_cases)
  case 1
  show ?case by simp
next
  case (2 c s r)
  then show ?case using length_literal_end [of s r] by simp
next
  case (3 c s d u r)
  have "length r < length u" using 3 by (intro length_literal_end) simp
  also have "\<dots> < length (skip (drop 6 s))" using 3 by simp
  also have "\<dots> \<le> length (drop 6 s)" by (rule length_skip)
  also have "\<dots> \<le> length s" by simp
  finally show ?case by simp
next
  case (4 c s d u)
  have "length (d # u) = length (skip (drop 6 s))" using 4 by simp
  also have "\<dots> \<le> length (drop 6 s)" by (rule length_skip)
  also have "\<dots> \<le> length s" by simp
  finally show ?case by simp
next
  case (5 c s)
  show ?case by simp
qed

declare outside_literals.simps [simp del]

text \<open>
  The places of a source where inserted whitespace would fall inside a token. The source
  is cut into the text \<open>q\<close> before the place and the text \<open>g\<close> after it. The place
  is inside a token when it is between two characters of a word (letters, digits and
  underscores: an identifier, a keyword, a number), between two characters of the identity
  of an author tag, or inside \<^verbatim>\<open>==\<close>, \<^verbatim>\<open>!=\<close>, \<^verbatim>\<open>..\<close> or \<^verbatim>\<open>.split(\<close>.
  \<open>after_at\<close> holds of a text that ends with an \<^verbatim>\<open>@\<close>, whitespace and characters
  of an identity. The place is between two tokens when there is text on both sides of it,
  the text before it ends outside a literal, and it is not inside a token.
\<close>

definition after_at :: "string \<Rightarrow> bool" where
  "after_at q =
     (case skip (dropWhile identity_char (rev q)) of [] \<Rightarrow> False | c # r \<Rightarrow> c = CHR ''@'')"

definition inside_token :: "string \<Rightarrow> string \<Rightarrow> bool" where
  "inside_token q g \<longleftrightarrow>
     q \<noteq> [] \<and> g \<noteq> [] \<and>
     ((identifier_char (last q) \<and> identifier_char (hd g)) \<or>
      (identity_char (last q) \<and> identity_char (hd g) \<and> after_at q) \<or>
      (hd g = CHR ''='' \<and> last q \<in> set ''=!'') \<or>
      (last q = CHR ''.'' \<and> hd g = CHR ''.'') \<or>
      (last q = CHR ''.'' \<and> prefix ''split('' g) \<or>
      (hd g = CHR ''('' \<and> suffix ''.split'' q))"


text \<open>
  Two runs of a rule, one on the source and one on the source with the whitespace \<open>w\<close>
  inserted before its final part \<open>g\<close>. \<open>aligned g w s s'\<close> relates the inputs of
  the two runs at the start of a rule: either both are past the place of the insertion and
  are the same text, or both are before it, by at least one character, and differ by
  \<open>w\<close> only. \<open>remains g w r r'\<close> relates what the two runs leave: here the place
  of the insertion may be the very start.
\<close>

definition apart :: "string \<Rightarrow> string \<Rightarrow> bool" where
  "apart q g \<longleftrightarrow> outside_literals q \<and> \<not> inside_token q g"

definition aligned :: "string \<Rightarrow> string \<Rightarrow> string \<Rightarrow> string \<Rightarrow> bool" where
  "aligned g w s s' \<longleftrightarrow>
     (s' = s \<and> suffix s g) \<or>
     (\<exists>q. q \<noteq> [] \<and> s = q @ g \<and> s' = q @ w @ g \<and> apart q g)"

definition remains :: "string \<Rightarrow> string \<Rightarrow> string \<Rightarrow> string \<Rightarrow> bool" where
  "remains g w r r' \<longleftrightarrow>
     (r' = r \<and> suffix r g) \<or>
     (\<exists>q. r = q @ g \<and> r' = q @ w @ g \<and> apart q g)"


text \<open>
  A text and the same text with the whitespace \<open>w\<close> inserted at one place, or left as
  it is.
\<close>

definition inserted :: "string \<Rightarrow> string \<Rightarrow> string \<Rightarrow> bool" where
  "inserted w t t' \<longleftrightarrow> t' = t \<or> (\<exists>a b. t = a @ b \<and> t' = a @ w @ b)"









definition split_tail :: "string \<Rightarrow> (string \<times> string) option" where
  "split_tail s = do { r \<leftarrow> lit ''.split('' s; delimiter (skip r) }"


section \<open>Properties of the grammar\<close>

subsection \<open>Basic facts about literals, whitespace and identifiers\<close>

lemma lit_append [simp]: "lit p (p @ r) = Some r"
  by (simp add: lit_def)

lemma skip_Nil [simp]: "skip [] = []"
  by (simp add: skip_def)

lemma skip_Cons: "skip (c # s) = (if WHITESPACE c then skip s else c # s)"
  by (simp add: skip_def)

lemma skip_idem [simp]: "skip (skip s) = skip s"
  by (simp add: skip_def dropWhile_idem)

lemma identifier_char_not_WHITESPACE: "identifier_char c \<Longrightarrow> \<not> WHITESPACE c"
  by (auto simp: identifier_char_def WHITESPACE_def ASCII_ALPHANUMERIC_def)

lemma identifier_rule_append:
  assumes "n \<noteq> []" and "\<forall>c\<in>set n. identifier_char c"
    and "r = [] \<or> \<not> identifier_char (hd r)"
  shows "identifier_rule (n @ r) = Some (n, r)"
proof -
  have t: "takeWhile identifier_char (n @ r) = n"
    using assms(2,3) by (cases r) (auto simp: takeWhile_append2 takeWhile_eq_all_conv)
  have d: "dropWhile identifier_char (n @ r) = r"
    using assms(2,3) by (cases r) (auto simp: dropWhile_append2)
  show ?thesis unfolding identifier_rule_def t d using assms(1) by (cases n) simp_all
qed

lemma not_WHITESPACE_quote [simp]: "\<not> WHITESPACE quote"
  by (simp add: WHITESPACE_def)

lemma skip_not_WHITESPACE: "\<not> WHITESPACE c \<Longrightarrow> skip (c # s) = c # s"
  by (simp add: skip_Cons)

lemma span_append [simp]: "span (p @ r) r = p"
  by (simp add: span_def)


subsection \<open>Every rule leaves a suffix of its input\<close>

lemma suffix_skip [simp]: "suffix (skip s) s"
  by (simp add: skip_def suffix_dropWhile)

lemma suffix_trans: "suffix a b \<Longrightarrow> suffix b c \<Longrightarrow> suffix a c"
  by (rule suffix_order.trans)

lemma suffix_after_skip: "suffix r (skip s) \<Longrightarrow> suffix r s"
  by (rule suffix_trans [OF _ suffix_skip])

lemma suffix_lit: "lit p s = Some r \<Longrightarrow> suffix r s"
  by (auto simp: lit_def suffix_drop split: if_splits)

lemma suffix_ANY: "ANY s = Some r \<Longrightarrow> suffix r s"
  by (cases s) (auto simp: suffix_ConsI)

lemma suffix_digit: "digit s = Some r \<Longrightarrow> suffix r s"
  by (cases s) (auto simp: suffix_ConsI split: if_splits)

lemma suffix_digits_more [simp]: "suffix (digits_more s) s"
proof (induction s rule: digits_more.induct)
  case (1 s)
  show ?case
  proof (cases "digit (skip s)")
    case None
    then show ?thesis by (simp add: digits_more.simps [of s])
  next
    case (Some r)
    have "suffix (digits_more r) r" using 1 Some by simp
    also have "suffix r (skip s)" using Some by (rule suffix_digit)
    also have "suffix (skip s) s" by simp
    finally show ?thesis using Some by (simp add: digits_more.simps [of s])
  qed
qed

lemma suffix_digits_rep [simp]: "suffix (digits_rep s) s"
proof (cases "digit s")
  case None
  then show ?thesis by (simp add: digits_rep_def)
next
  case (Some r)
  have "suffix (digits_more r) r" by simp
  also have "suffix r s" using Some by (rule suffix_digit)
  finally show ?thesis using Some by (simp add: digits_rep_def)
qed

lemma suffix_digits1: "digits1 s = Some r \<Longrightarrow> suffix r s"
proof -
  assume "digits1 s = Some r"
  then obtain r1 where d: "digit s = Some r1" and r: "r = digits_rep (skip r1)"
    by (auto simp: digits1_def split: bind_splits)
  have "suffix r (skip r1)" unfolding r by simp
  also have "suffix (skip r1) r1" by simp
  also have "suffix r1 s" using d by (rule suffix_digit)
  finally show ?thesis .
qed

lemma suffix_dot_digits: "dot_digits s = Some r \<Longrightarrow> suffix r s"
proof -
  assume "dot_digits s = Some r"
  then obtain r1 where l: "lit ''.'' s = Some r1" and d: "digits1 (skip r1) = Some r"
    by (auto simp: dot_digits_def split: bind_splits)
  have "suffix r (skip r1)" using d by (rule suffix_digits1)
  also have "suffix (skip r1) r1" by simp
  also have "suffix r1 s" using l by (rule suffix_lit)
  finally show ?thesis .
qed

lemma suffix_dot_digits_more [simp]: "suffix (dot_digits_more s) s"
proof (induction s rule: dot_digits_more.induct)
  case (1 s)
  show ?case
  proof (cases "dot_digits (skip s)")
    case None
    then show ?thesis by (simp add: dot_digits_more.simps [of s])
  next
    case (Some r)
    have "suffix (dot_digits_more r) r" using 1 Some by simp
    also have "suffix r (skip s)" using Some by (rule suffix_dot_digits)
    also have "suffix (skip s) s" by simp
    finally show ?thesis using Some by (simp add: dot_digits_more.simps [of s])
  qed
qed

lemma suffix_dot_digits_rep [simp]: "suffix (dot_digits_rep s) s"
proof (cases "dot_digits s")
  case None
  then show ?thesis by (simp add: dot_digits_rep_def)
next
  case (Some r)
  have "suffix (dot_digits_more r) r" by simp
  also have "suffix r s" using Some by (rule suffix_dot_digits)
  finally show ?thesis using Some by (simp add: dot_digits_rep_def)
qed

lemma suffix_version: "version s = Some (v, r) \<Longrightarrow> suffix r s"
proof -
  assume "version s = Some (v, r)"
  then obtain r1 r2 where l: "lit ''v'' s = Some r1" and d: "digits1 (skip r1) = Some r2"
    and r: "r = dot_digits_rep (skip r2)"
    by (auto simp: version_def Let_def split: bind_splits)
  have "suffix r (skip r2)" unfolding r by simp
  also have "suffix (skip r2) r2" by simp
  also have "suffix r2 (skip r1)" using d by (rule suffix_digits1)
  also have "suffix (skip r1) r1" by simp
  also have "suffix r1 s" using l by (rule suffix_lit)
  finally show ?thesis .
qed


lemma suffix_identifier_rule: "identifier_rule s = Some (n, r) \<Longrightarrow> suffix r s"
  by (auto simp: identifier_rule_def suffix_dropWhile split: list.splits)

lemma suffix_identity: "identity s = Some (n, r) \<Longrightarrow> suffix r s"
  by (auto simp: identity_def suffix_dropWhile)

lemma suffix_string_item: "string_item s = Some r \<Longrightarrow> suffix r s"
proof (cases "lit [backslash, quote] s")
  case (Some r')
  assume "string_item s = Some r"
  then show ?thesis using Some suffix_lit [OF Some] by (simp add: string_item_def)
next
  case None
  assume "string_item s = Some r"
  then have "ANY (skip s) = Some r"
    using None by (simp add: string_item_def split: option.splits)
  then have "suffix r (skip s)" by (rule suffix_ANY)
  then show ?thesis by (rule suffix_after_skip)
qed

lemma suffix_delimiter_item: "delimiter_item s = Some r \<Longrightarrow> suffix r s"
proof -
  assume "delimiter_item s = Some r"
  then have "ANY (skip s) = Some r"
    by (simp add: delimiter_item_def split: option.splits)
  then have "suffix r (skip s)" by (rule suffix_ANY)
  then show ?thesis by (rule suffix_after_skip)
qed

lemma suffix_string_items_more [simp]: "suffix (string_items_more s) s"
proof (induction s rule: string_items_more.induct)
  case (1 s)
  show ?case
  proof (cases "string_item (skip s)")
    case None
    then show ?thesis by (simp add: string_items_more.simps [of s])
  next
    case (Some r)
    have "suffix (string_items_more r) r" using 1 Some by simp
    also have "suffix r (skip s)" using Some by (rule suffix_string_item)
    also have "suffix (skip s) s" by simp
    finally show ?thesis using Some by (simp add: string_items_more.simps [of s])
  qed
qed

lemma suffix_string_items [simp]: "suffix (string_items s) s"
proof (cases "string_item s")
  case None
  then show ?thesis by (simp add: string_items_def)
next
  case (Some r)
  have "suffix (string_items_more r) r" by simp
  also have "suffix r s" using Some by (rule suffix_string_item)
  finally show ?thesis using Some by (simp add: string_items_def)
qed

lemma suffix_string: "string s = Some (x, r) \<Longrightarrow> suffix r s"
proof -
  assume "string s = Some (x, r)"
  then obtain r1 where l1: "lit [quote] s = Some r1"
    and l3: "lit [quote] (skip (string_items (skip r1))) = Some r"
    by (auto simp: string_def Let_def split: bind_splits)
  have "suffix r (skip (string_items (skip r1)))" using l3 by (rule suffix_lit)
  also have "suffix \<dots> (string_items (skip r1))" by simp
  also have "suffix \<dots> (skip r1)" by simp
  also have "suffix \<dots> r1" by simp
  also have "suffix r1 s" using l1 by (rule suffix_lit)
  finally show ?thesis .
qed

lemma suffix_delimiter_items_more [simp]: "suffix (delimiter_items_more s) s"
proof (induction s rule: delimiter_items_more.induct)
  case (1 s)
  show ?case
  proof (cases "delimiter_item (skip s)")
    case None
    then show ?thesis by (simp add: delimiter_items_more.simps [of s])
  next
    case (Some r)
    have "suffix (delimiter_items_more r) r" using 1 Some by simp
    also have "suffix r (skip s)" using Some by (rule suffix_delimiter_item)
    also have "suffix (skip s) s" by simp
    finally show ?thesis using Some by (simp add: delimiter_items_more.simps [of s])
  qed
qed

lemma suffix_delimiter_items [simp]: "suffix (delimiter_items s) s"
proof (cases "delimiter_item s")
  case None
  then show ?thesis by (simp add: delimiter_items_def)
next
  case (Some r)
  have "suffix (delimiter_items_more r) r" by simp
  also have "suffix r s" using Some by (rule suffix_delimiter_item)
  finally show ?thesis using Some by (simp add: delimiter_items_def)
qed

lemma suffix_delimiter: "delimiter s = Some (x, r) \<Longrightarrow> suffix r s"
proof -
  assume "delimiter s = Some (x, r)"
  then obtain r1 where l1: "lit [quote] s = Some r1"
    and l3: "lit [quote] (skip (delimiter_items (skip r1))) = Some r"
    by (auto simp: delimiter_def Let_def split: bind_splits)
  have "suffix r (skip (delimiter_items (skip r1)))" using l3 by (rule suffix_lit)
  also have "suffix \<dots> (delimiter_items (skip r1))" by simp
  also have "suffix \<dots> (skip r1)" by simp
  also have "suffix \<dots> r1" by simp
  also have "suffix r1 s" using l1 by (rule suffix_lit)
  finally show ?thesis .
qed

lemma suffix_number: "number s = Some (x, r) \<Longrightarrow> suffix r s"
  by (auto simp: number_def split: bind_splits dest: suffix_digits1)

lemma suffix_boolean: "boolean s = Some (x, r) \<Longrightarrow> suffix r s"
  by (auto simp: boolean_def dest!: choice_Some dest: suffix_lit split: bind_splits)

lemma suffix_register: "register s = Some (x, r) \<Longrightarrow> suffix r s"
proof -
  assume "register s = Some (x, r)"
  then obtain r1 where l: "lit ''$'' s = Some r1" and i: "identifier_rule (skip r1) = Some (x, r)"
    by (auto simp: register_def split: bind_splits)
  have "suffix r (skip r1)" using i by (rule suffix_identifier_rule)
  also have "suffix \<dots> r1" by simp
  also have "suffix r1 s" using l by (rule suffix_lit)
  finally show ?thesis .
qed

lemma suffix_param: "param s = Some (x, r) \<Longrightarrow> suffix r s"
  unfolding param_def
  by (auto dest!: choice_Some node_Some
      dest: suffix_string suffix_number suffix_boolean suffix_identifier_rule suffix_register)

lemma suffix_value_rule: "value_rule s = Some (x, r) \<Longrightarrow> suffix r s"
  unfolding value_rule_def
  by (auto dest!: choice_Some node_Some
      dest: suffix_string suffix_number suffix_boolean suffix_identifier_rule suffix_register)

lemma suffix_simple_expression: "simple_expression s = Some (x, r) \<Longrightarrow> suffix r s"
  unfolding simple_expression_def
  by (auto dest!: choice_Some node_Some
      dest: suffix_string suffix_number suffix_boolean suffix_identifier_rule suffix_register)

lemma suffix_comma_param: "comma_param s = Some (x, r) \<Longrightarrow> suffix r s"
proof -
  assume "comma_param s = Some (x, r)"
  then obtain r1 where l: "lit '','' s = Some r1" and i: "param (skip r1) = Some (x, r)"
    by (auto simp: comma_param_def split: bind_splits)
  have "suffix r (skip r1)" using i by (rule suffix_param)
  also have "suffix \<dots> r1" by simp
  also have "suffix r1 s" using l by (rule suffix_lit)
  finally show ?thesis .
qed

lemma suffix_range_expression: "range_expression s = Some (x, r) \<Longrightarrow> suffix r s"
proof -
  assume "range_expression s = Some (x, r)"
  then obtain a r1 r2 b where i1: "identifier_rule s = Some (a, r1)"
    and l: "lit ''..'' (skip r1) = Some r2" and i2: "identifier_rule (skip r2) = Some (b, r)"
    by (auto simp: range_expression_def split: bind_splits)
  have "suffix r (skip r2)" using i2 by (rule suffix_identifier_rule)
  also have "suffix \<dots> r2" by simp
  also have "suffix r2 (skip r1)" using l by (rule suffix_lit)
  also have "suffix \<dots> r1" by simp
  also have "suffix r1 s" using i1 by (rule suffix_identifier_rule)
  finally show ?thesis .
qed

lemma suffix_comparison_operator: "comparison_operator s = Some (x, r) \<Longrightarrow> suffix r s"
  unfolding comparison_operator_def operator_def
  by (auto dest!: choice_Some dest: suffix_lit split: bind_splits)

lemma suffix_comparison_tail: "comparison_tail s = Some (x, r) \<Longrightarrow> suffix r s"
proof -
  assume "comparison_tail s = Some (x, r)"
  then obtain c r1 y where o: "comparison_operator s = Some (c, r1)"
    and e: "simple_expression (skip r1) = Some (y, r)"
    by (auto simp: comparison_tail_def split: bind_splits)
  have "suffix r (skip r1)" using e by (rule suffix_simple_expression)
  also have "suffix \<dots> r1" by simp
  also have "suffix r1 s" using o by (rule suffix_comparison_operator)
  finally show ?thesis .
qed

lemma suffix_expression: "expression s = Some (x, r) \<Longrightarrow> suffix r s"
proof -
  assume a: "expression s = Some (x, r)"
  show ?thesis
  proof (cases "range_expression s")
    case (Some y)
    then show ?thesis using a
      by (cases y) (auto simp: expression_def choice_def node_def dest: suffix_range_expression)
  next
    case None
    then obtain y r1 where e: "simple_expression s = Some (y, r1)"
      and c: "choice (node (\<lambda>(c, z). Comparison y c z) (comparison_tail (skip r1)))
                 (Some (SimpleExpression y, skip r1)) = Some (x, r)"
      using a by (auto simp: expression_def choice_def node_def split: bind_splits)
    have "suffix r (skip r1)"
      using c by (auto dest!: choice_Some node_Some dest: suffix_comparison_tail)
    also have "suffix \<dots> r1" by simp
    also have "suffix r1 s" using e by (rule suffix_simple_expression)
    finally show ?thesis .
  qed
qed

lemma suffix_split_source: "split_source s = Some (x, r) \<Longrightarrow> suffix r s"
  unfolding split_source_def
  by (auto dest!: choice_Some node_Some
      dest: suffix_string suffix_identifier_rule suffix_register)

lemma suffix_split_expression: "split_expression s = Some (x, r) \<Longrightarrow> suffix r s"
proof -
  assume "split_expression s = Some (x, r)"
  then obtain y r1 r2 d r3 where s: "split_source s = Some (y, r1)"
    and l: "lit ''.split('' (skip r1) = Some r2" and d: "delimiter (skip r2) = Some (d, r3)"
    and l': "lit '')'' (skip r3) = Some r"
    by (auto simp: split_expression_def split: bind_splits)
  have "suffix r (skip r3)" using l' by (rule suffix_lit)
  also have "suffix \<dots> r3" by simp
  also have "suffix r3 (skip r2)" using d by (rule suffix_delimiter)
  also have "suffix \<dots> r2" by simp
  also have "suffix r2 (skip r1)" using l by (rule suffix_lit)
  also have "suffix \<dots> r1" by simp
  also have "suffix r1 s" using s by (rule suffix_split_source)
  finally show ?thesis .
qed

lemma suffix_iterable: "iterable s = Some (x, r) \<Longrightarrow> suffix r s"
  unfolding iterable_def
  by (auto dest!: choice_Some node_Some dest: suffix_split_expression suffix_range_expression)

lemma suffix_comma_params_more [simp]: "suffix (snd (comma_params_more s)) s"
proof (induction s rule: comma_params_more.induct)
  case (1 s)
  show ?case
  proof (cases "comma_param (skip s)")
    case None
    then show ?thesis by (simp add: comma_params_more.simps [of s])
  next
    case (Some y)
    obtain x r where y: "y = (x, r)" by (cases y)
    have "suffix (snd (comma_params_more r)) r" using 1 Some y by simp
    also have "suffix r (skip s)" using Some y suffix_comma_param by simp
    also have "suffix (skip s) s" by simp
    finally show ?thesis
      using Some y by (auto simp: comma_params_more.simps [of s] split: prod.splits)
  qed
qed

lemma suffix_comma_params [simp]: "suffix (snd (comma_params s)) s"
proof (cases "comma_param s")
  case None
  then show ?thesis by (simp add: comma_params_def)
next
  case (Some y)
  obtain x r where y: "y = (x, r)" by (cases y)
  have "suffix (snd (comma_params_more r)) r" by simp
  also have "suffix r s" using Some y suffix_comma_param by simp
  finally show ?thesis using Some y by (auto simp: comma_params_def split: prod.splits)
qed

lemma suffix_params [simp]: "suffix (snd (params s)) s"
proof (cases "param s")
  case None
  then show ?thesis by (simp add: params_def)
next
  case (Some y)
  obtain x r where y: "y = (x, r)" by (cases y)
  have "suffix (snd (comma_params (skip r))) (skip r)" by simp
  also have "suffix \<dots> r" by simp
  also have "suffix r s" using Some y suffix_param by simp
  finally show ?thesis using Some y by (auto simp: params_def split: prod.splits)
qed

lemma suffix_external_fn_call: "external_fn_call s = Some (x, r) \<Longrightarrow> suffix r s"
proof -
  assume "external_fn_call s = Some (x, r)"
  then obtain r1 f r2 r3 where l1: "lit ''call'' s = Some r1"
    and i: "identifier_rule (skip r1) = Some (f, r2)"
    and l3: "lit ''('' (skip r2) = Some r3"
    and l5: "lit '')'' (skip (snd (params (skip r3)))) = Some r"
    by (auto simp: external_fn_call_def split: bind_splits prod.splits)
  have "suffix r (skip (snd (params (skip r3))))" using l5 by (rule suffix_lit)
  also have "suffix \<dots> (snd (params (skip r3)))" by simp
  also have "suffix \<dots> (skip r3)" by simp
  also have "suffix \<dots> r3" by simp
  also have "suffix r3 (skip r2)" using l3 by (rule suffix_lit)
  also have "suffix \<dots> r2" by simp
  also have "suffix r2 (skip r1)" using i by (rule suffix_identifier_rule)
  also have "suffix \<dots> r1" by simp
  also have "suffix r1 s" using l1 by (rule suffix_lit)
  finally show ?thesis .
qed

lemma suffix_command_call: "command_call s = Some (x, r) \<Longrightarrow> suffix r s"
proof -
  assume "command_call s = Some (x, r)"
  then obtain c r1 r2 where i: "identifier_rule s = Some (c, r1)"
    and l2: "lit ''('' (skip r1) = Some r2"
    and l4: "lit '')'' (skip (snd (params (skip r2)))) = Some r"
    by (auto simp: command_call_def command_def split: bind_splits prod.splits)
  have "suffix r (skip (snd (params (skip r2))))" using l4 by (rule suffix_lit)
  also have "suffix \<dots> (snd (params (skip r2)))" by simp
  also have "suffix \<dots> (skip r2)" by simp
  also have "suffix \<dots> r2" by simp
  also have "suffix r2 (skip r1)" using l2 by (rule suffix_lit)
  also have "suffix \<dots> r1" by simp
  also have "suffix r1 s" using i by (rule suffix_identifier_rule)
  finally show ?thesis .
qed

lemma suffix_action: "action s = Some (x, r) \<Longrightarrow> suffix r s"
  unfolding action_def
  by (auto dest!: choice_Some node_Some dest: suffix_external_fn_call suffix_command_call)

lemma suffix_assigned: "assigned s = Some (x, r) \<Longrightarrow> suffix r s"
  unfolding assigned_def
  by (auto dest!: choice_Some node_Some dest: suffix_external_fn_call suffix_value_rule)

lemma suffix_register_operation: "register_operation s = Some (x, r) \<Longrightarrow> suffix r s"
proof -
  assume "register_operation s = Some (x, r)"
  then obtain y r1 r2 v where g: "register s = Some (y, r1)"
    and l: "lit ''='' (skip r1) = Some r2" and a: "assigned (skip r2) = Some (v, r)"
    by (auto simp: register_operation_def split: bind_splits)
  have "suffix r (skip r2)" using a by (rule suffix_assigned)
  also have "suffix \<dots> r2" by simp
  also have "suffix r2 (skip r1)" using l by (rule suffix_lit)
  also have "suffix \<dots> r1" by simp
  also have "suffix r1 s" using g by (rule suffix_register)
  finally show ?thesis .
qed

lemma suffix_step_body_all:
  "\<forall>v r. step_body s1 = Some (v, r) \<longrightarrow> suffix r s1"
  "suffix (snd (step_body_more s2)) s2"
  "suffix (snd (step_body_rep s3)) s3"
  "\<forall>v r. step_body_item s4 = Some (v, r) \<longrightarrow> suffix r s4"
  "\<forall>v r. condition s5 = Some (v, r) \<longrightarrow> suffix r s5"
  "\<forall>v r. for_loop s6 = Some (v, r) \<longrightarrow> suffix r s6"
proof (induct s1 and s2 and s3 and s4 and s5 and s6
    rule: step_body_step_body_more_step_body_rep_step_body_item_condition_for_loop.induct)
  case (1 s)
  show ?case
  proof (intro allI impI)
    fix v r
    assume a: "step_body s = Some (v, r)"
    then obtain x r1 where st: "step_body_item s = Some (x, r1)"
      and r: "r = snd (step_body_rep (skip r1))"
      by (auto simp: step_body.simps [of s] split: bind_splits prod.splits)
    have "suffix r (skip r1)" unfolding r using 1(2) [OF st refl] .
    also have "suffix \<dots> r1" by simp
    also have "suffix r1 s" using 1(1) st by blast
    finally show "suffix r s" .
  qed
next
  case (2 s)
  show ?case
  proof (cases "step_body_item s")
    case None
    then show ?thesis by (simp add: step_body_rep.simps [of s])
  next
    case (Some y)
    obtain x r where y: "y = (x, r)" by (cases y)
    have "suffix (snd (step_body_more r)) r" using 2(2) Some y by simp
    also have "suffix r s" using 2(1) Some y by blast
    finally show ?thesis
      using Some y by (auto simp: step_body_rep.simps [of s] split: prod.splits)
  qed
next
  case (3 s)
  show ?case
  proof (cases "step_body_item (skip s)")
    case None
    then show ?thesis by (simp add: step_body_more.simps [of s])
  next
    case (Some y)
    obtain x r where y: "y = (x, r)" by (cases y)
    have "suffix (snd (step_body_more r)) r" using 3(2) Some y by simp
    also have "suffix r (skip s)" using 3(1) Some y by blast
    also have "suffix \<dots> s" by simp
    finally show ?thesis
      using Some y by (auto simp: step_body_more.simps [of s] split: prod.splits)
  qed
next
  case (4 s)
  show ?case
    using 4(1,2)
    by (auto simp: step_body_item.simps [of s] dest!: choice_Some node_Some
        dest: suffix_register_operation suffix_action)
next
  case (5 s)
  show ?case
  proof (intro allI impI)
    fix v r
    assume a: "condition s = Some (v, r)"
    then obtain r1 e r2 r3 b r4 where l1: "lit ''if'' s = Some r1"
      and e: "expression (skip r1) = Some (e, r2)"
      and l3: "lit ''{'' (skip r2) = Some r3"
      and b: "step_body (skip r3) = Some (b, r4)"
      and l5: "lit ''}'' (skip r4) = Some r"
      by (auto simp: condition.simps [of s] split: bind_splits)
    have "suffix r (skip r4)" using l5 by (rule suffix_lit)
    also have "suffix \<dots> r4" by simp
    also have "suffix r4 (skip r3)" using 5 [OF l1 e refl l3] b by blast
    also have "suffix \<dots> r3" by simp
    also have "suffix r3 (skip r2)" using l3 by (rule suffix_lit)
    also have "suffix \<dots> r2" by simp
    also have "suffix r2 (skip r1)" using e by (rule suffix_expression)
    also have "suffix \<dots> r1" by simp
    also have "suffix r1 s" using l1 by (rule suffix_lit)
    finally show "suffix r s" .
  qed
next
  case (6 s)
  show ?case
  proof (intro allI impI)
    fix v r
    assume a: "for_loop s = Some (v, r)"
    then obtain r1 x r2 r3 i r4 r5 b r6 where l1: "lit ''for'' s = Some r1"
      and x: "identifier_rule (skip r1) = Some (x, r2)"
      and l3: "lit ''in'' (skip r2) = Some r3"
      and i: "iterable (skip r3) = Some (i, r4)"
      and l5: "lit ''{'' (skip r4) = Some r5"
      and b: "step_body (skip r5) = Some (b, r6)"
      and l7: "lit ''}'' (skip r6) = Some r"
      by (auto simp: for_loop.simps [of s] split: bind_splits)
    have "suffix r (skip r6)" using l7 by (rule suffix_lit)
    also have "suffix \<dots> r6" by simp
    also have "suffix r6 (skip r5)" using 6 [OF l1 x refl l3 i refl l5] b by blast
    also have "suffix \<dots> r5" by simp
    also have "suffix r5 (skip r4)" using l5 by (rule suffix_lit)
    also have "suffix \<dots> r4" by simp
    also have "suffix r4 (skip r3)" using i by (rule suffix_iterable)
    also have "suffix \<dots> r3" by simp
    also have "suffix r3 (skip r2)" using l3 by (rule suffix_lit)
    also have "suffix \<dots> r2" by simp
    also have "suffix r2 (skip r1)" using x by (rule suffix_identifier_rule)
    also have "suffix \<dots> r1" by simp
    also have "suffix r1 s" using l1 by (rule suffix_lit)
    finally show "suffix r s" .
  qed
qed

lemma suffix_step_body: "step_body s = Some (x, r) \<Longrightarrow> suffix r s"
  using suffix_step_body_all(1) by simp

lemma suffix_step: "step s = Some (x, r) \<Longrightarrow> suffix r s"
proof -
  assume "step s = Some (x, r)"
  then obtain r1 n r2 r3 b r4 where l1: "lit ''step'' s = Some r1"
    and i: "identifier_rule (skip r1) = Some (n, r2)"
    and l3: "lit ''{'' (skip r2) = Some r3"
    and b: "step_body (skip r3) = Some (b, r4)"
    and l5: "lit ''}'' (skip r4) = Some r"
    by (auto simp: step_def split: bind_splits)
  have "suffix r (skip r4)" using l5 by (rule suffix_lit)
  also have "suffix \<dots> r4" by simp
  also have "suffix r4 (skip r3)" using b by (rule suffix_step_body)
  also have "suffix \<dots> r3" by simp
  also have "suffix r3 (skip r2)" using l3 by (rule suffix_lit)
  also have "suffix \<dots> r2" by simp
  also have "suffix r2 (skip r1)" using i by (rule suffix_identifier_rule)
  also have "suffix \<dots> r1" by simp
  also have "suffix r1 s" using l1 by (rule suffix_lit)
  finally show ?thesis .
qed

lemma suffix_steps_more [simp]: "suffix (snd (steps_more s)) s"
proof (induction s rule: steps_more.induct)
  case (1 s)
  show ?case
  proof (cases "step (skip s)")
    case None
    then show ?thesis by (simp add: steps_more.simps [of s])
  next
    case (Some y)
    obtain x r where y: "y = (x, r)" by (cases y)
    have "suffix (snd (steps_more r)) r" using 1 Some y by simp
    also have "suffix r (skip s)" using Some y suffix_step by simp
    also have "suffix (skip s) s" by simp
    finally show ?thesis
      using Some y by (auto simp: steps_more.simps [of s] split: prod.splits)
  qed
qed

lemma suffix_steps_rep [simp]: "suffix (snd (steps_rep s)) s"
proof (cases "step s")
  case None
  then show ?thesis by (simp add: steps_rep_def)
next
  case (Some y)
  obtain x r where y: "y = (x, r)" by (cases y)
  have "suffix (snd (steps_more r)) r" by simp
  also have "suffix r s" using Some y suffix_step by simp
  finally show ?thesis using Some y by (auto simp: steps_rep_def split: prod.splits)
qed

lemma suffix_steps1: "steps1 s = Some (x, r) \<Longrightarrow> suffix r s"
proof -
  assume "steps1 s = Some (x, r)"
  then obtain y r1 where st: "step s = Some (y, r1)" and r: "r = snd (steps_rep (skip r1))"
    by (auto simp: steps1_def split: bind_splits prod.splits)
  have "suffix r (skip r1)" unfolding r by simp
  also have "suffix \<dots> r1" by simp
  also have "suffix r1 s" using st by (rule suffix_step)
  finally show ?thesis .
qed

lemma suffix_author_tag: "author_tag s = Some (x, r) \<Longrightarrow> suffix r s"
proof -
  assume "author_tag s = Some (x, r)"
  then obtain r1 r2 where l1: "lit ''@'' s = Some r1" and l2: "lit ''@'' (skip r1) = Some r2"
    and i: "identity (skip r2) = Some (x, r)"
    by (auto simp: author_tag_def split: bind_splits)
  have "suffix r (skip r2)" using i by (rule suffix_identity)
  also have "suffix \<dots> r2" by simp
  also have "suffix r2 (skip r1)" using l2 by (rule suffix_lit)
  also have "suffix \<dots> r1" by simp
  also have "suffix r1 s" using l1 by (rule suffix_lit)
  finally show ?thesis .
qed

lemma suffix_optional_author_tag [simp]: "suffix (snd (optional_author_tag s)) s"
  by (auto simp: optional_author_tag_def dest: suffix_author_tag split: option.splits)

lemma suffix_optional_sticky_tag [simp]: "suffix (snd (optional_sticky_tag s)) s"
  by (auto simp: optional_sticky_tag_def sticky_tag_def dest: suffix_lit split: option.splits)

lemma suffix_workflow: "workflow s = Some (w, r) \<Longrightarrow> suffix r s"
proof -
  assume "workflow s = Some (w, r)"
  then obtain r1 n r2 v r3 r4 ss r5 r6 where l1: "lit ''workflow'' s = Some r1"
    and i: "identifier_rule (skip r1) = Some (n, r2)"
    and v: "version (skip r2) = Some (v, r3)"
    and l4: "lit ''{'' (skip r3) = Some r4"
    and ss: "steps1 (skip r4) = Some (ss, r5)"
    and l6: "lit ''}'' (skip r5) = Some r6"
    and r: "r = snd (optional_sticky_tag (skip (snd (optional_author_tag (skip r6)))))"
    by (auto simp: workflow_def split: bind_splits prod.splits)
  have "suffix r (skip (snd (optional_author_tag (skip r6))))" unfolding r by simp
  also have "suffix \<dots> (snd (optional_author_tag (skip r6)))" by simp
  also have "suffix \<dots> (skip r6)" by simp
  also have "suffix \<dots> r6" by simp
  also have "suffix r6 (skip r5)" using l6 by (rule suffix_lit)
  also have "suffix \<dots> r5" by simp
  also have "suffix r5 (skip r4)" using ss by (rule suffix_steps1)
  also have "suffix \<dots> r4" by simp
  also have "suffix r4 (skip r3)" using l4 by (rule suffix_lit)
  also have "suffix \<dots> r3" by simp
  also have "suffix r3 (skip r2)" using v by (rule suffix_version)
  also have "suffix \<dots> r2" by simp
  also have "suffix r2 (skip r1)" using i by (rule suffix_identifier_rule)
  also have "suffix \<dots> r1" by simp
  also have "suffix r1 s" using l1 by (rule suffix_lit)
  finally show ?thesis .
qed

subsection \<open>The \<^verbatim>\<open>call\<close> keyword has no word boundary\<close>

text \<open>
  C8. In \<^verbatim>\<open>action\<close> the alternative \<^verbatim>\<open>external_fn_call\<close> is tried first, and its
  literal \<^verbatim>\<open>"call"\<close> matches a prefix of an identifier. For every non-empty run
  \<open>Y\<close> of identifier characters and every argument text, the action text
  \<open>callY(args)\<close>, which the \<^verbatim>\<open>command\<close> alternative would read as the command
  named \<open>callY\<close>, is parsed as the external function call named \<open>Y\<close> with the same
  arguments.
\<close>

theorem call_prefix_is_external_call:
  assumes "Y \<noteq> []" and "\<forall>c\<in>set Y. identifier_char c"
    and "params (skip rest) = (xs, r1)" and "lit '')'' (skip r1) = Some r"
  shows "command_call (''call'' @ Y @ ''('' @ rest) = Some ((''call'' @ Y, xs), r) \<and>
         action (''call'' @ Y @ ''('' @ rest) = Some (ExternalFunctionCall Y xs, r) \<and>
         step_body_item (''call'' @ Y @ ''('' @ rest) = Some (Action (ExternalFunctionCall Y xs), r)"
proof -
  define s where "s = ''call'' @ Y @ ''('' @ rest"
  have paren: "\<not> identifier_char (CHR ''('')"
    by (simp add: identifier_char_def ASCII_ALPHANUMERIC_def)
  have Y: "identifier_rule (Y @ ''('' @ rest) = Some (Y, ''('' @ rest)"
    using assms(1,2) paren by (intro identifier_rule_append) auto
  have callY: "\<forall>c\<in>set (''call'' @ Y). identifier_char c"
    using assms(2) by (auto simp: identifier_char_def ASCII_ALPHANUMERIC_def)
  have "identifier_rule ((''call'' @ Y) @ ''('' @ rest) = Some (''call'' @ Y, ''('' @ rest)"
    using callY paren by (intro identifier_rule_append) auto
  then have X: "identifier_rule s = Some (''call'' @ Y, ''('' @ rest)"
    by (simp add: s_def)
  obtain y Y' where Ycons: "Y = y # Y'" using assms(1) by (cases Y) auto
  have skY: "skip (Y @ ''('' @ rest) = Y @ ''('' @ rest"
    using assms(2) Ycons identifier_char_not_WHITESPACE by (auto simp: skip_Cons)
  have l1: "lit ''call'' s = Some (Y @ ''('' @ rest)"
    unfolding s_def by (rule lit_append)
  have l2: "lit ''('' (skip (''('' @ rest)) = Some rest"
    by (simp add: skip_Cons WHITESPACE_def lit_def)
  have ext: "external_fn_call s = Some ((Y, xs), r)"
    unfolding external_fn_call_def using l1 skY Y l2 assms(3,4) by simp
  have cmd: "command_call s = Some ((''call'' @ Y, xs), r)"
    unfolding command_call_def command_def using X l2 assms(3,4) by simp
  have act: "action s = Some (ExternalFunctionCall Y xs, r)"
    by (simp add: action_def ext choice_def node_def)
  have no_if: "lit ''if'' s = None" by (simp add: s_def lit_def)
  have no_reg: "lit ''$'' s = None" by (simp add: s_def lit_def)
  have "condition s = None" by (simp add: condition.simps [of s] no_if)
  moreover have "register_operation s = None"
    by (simp add: register_operation_def register_def no_reg)
  ultimately have "step_body_item s = Some (Action (ExternalFunctionCall Y xs), r)"
    by (simp add: step_body_item.simps [of s] act choice_def node_def)
  with cmd act show ?thesis unfolding s_def by simp
qed

theorem call_prefix_is_external_call_witness:
  "command_call ''callfoo(1)'' = Some ((''callfoo'', [IntegerLiteral ''1'']), []) \<and>
   action ''callfoo(1)'' = Some (ExternalFunctionCall ''foo'' [IntegerLiteral ''1''], []) \<and>
   step_body_item ''callfoo(1)'' = Some (Action (ExternalFunctionCall ''foo'' [IntegerLiteral ''1'']), [])"
proof -
  have a: "''foo'' \<noteq> []" by simp
  have b: "\<forall>c\<in>set ''foo''. identifier_char c"
    by (simp add: identifier_char_def ASCII_ALPHANUMERIC_def)
  have c: "params (skip ''1)'') = ([IntegerLiteral ''1''], '')'')" by code_simp
  have d: "lit '')'' (skip '')'') = Some []" by code_simp
  show ?thesis using call_prefix_is_external_call [OF a b c d] by simp
qed

subsection \<open>An author tag may carry an empty identity\<close>

text \<open>
  C9. The rule \<^verbatim>\<open>identity\<close> is a repetition that may match nothing: it accepts zero
  characters. So \<^verbatim>\<open>@@\<close> followed by no identity character is a complete author
  tag whose identity is the empty string, and a parsed workflow can carry such an author
  tag.
\<close>

theorem identity_may_be_empty:
  "identity [] = Some ([], []) \<and>
   ((skip r = [] \<or> \<not> identity_char (hd (skip r))) \<longrightarrow>
      author_tag (''@@'' @ r) = Some ([], skip r)) \<and>
   (\<forall>located. parse located ''workflow w v1{step s{f()}}@@'' =
      Inr (Workflow ''w'' ''v1'' [Step ''s'' [Action (Command ''f'' [])]] (Some []) False))"
proof (intro conjI impI)
  show "identity [] = Some ([], [])" by (simp add: identity_def)
next
  assume a: "skip r = [] \<or> \<not> identity_char (hd (skip r))"
  have "identity (skip r) = Some ([], skip r)"
    using a by (cases "skip r") (auto simp: identity_def)
  moreover have "lit ''@'' (''@@'' @ r) = Some (''@'' @ r)" by (simp add: lit_def)
  moreover have "lit ''@'' (skip (''@'' @ r)) = Some r"
    by (simp add: lit_def skip_Cons WHITESPACE_def)
  ultimately show "author_tag (''@@'' @ r) = Some ([], skip r)"
    by (simp add: author_tag_def)
next
  have "workflow ''workflow w v1{step s{f()}}@@'' =
    Some (Workflow ''w'' ''v1'' [Step ''s'' [Action (Command ''f'' [])]] (Some []) False, [])"
    by code_simp
  then show "\<forall>located. parse located ''workflow w v1{step s{f()}}@@'' =
      Inr (Workflow ''w'' ''v1'' [Step ''s'' [Action (Command ''f'' [])]] (Some []) False)"
    by (simp add: parse_def)
qed

theorem identity_may_be_empty_witness:
  "author_tag ''@@ sticky'' = Some (''sticky'', []) \<and> author_tag ''@@ !'' = Some ([], ''!'')"
proof -
  have "skip '' !'' = [] \<or> \<not> identity_char (hd (skip '' !''))"
    by (simp add: skip_Cons WHITESPACE_def identity_char_def ASCII_ALPHANUMERIC_def)
  then have "author_tag (''@@'' @ '' !'') = Some ([], skip '' !'')"
    using identity_may_be_empty [of "'' !''"] by blast
  moreover have "author_tag ''@@ sticky'' = Some (''sticky'', [])" by code_simp
  ultimately show ?thesis by (simp add: skip_Cons WHITESPACE_def)
qed


subsection \<open>A split delimiter may be empty\<close>

text \<open>
  C10. The rule \<^verbatim>\<open>delimiter\<close> accepts zero characters between its quotes: two quotes
  in a row are a delimiter, the iterable \<^verbatim>\<open>$x.split("")\<close> is a split expression, and a
  workflow whose loop runs over it is accepted.
\<close>

lemma delimiter_empty: "delimiter (quote # quote # r) = Some ([quote, quote], r)"
proof -
  have 1: "lit [quote] (quote # quote # r) = Some (quote # r)" by (simp add: lit_def)
  have 2: "delimiter_items (quote # r) = quote # r"
    by (simp add: delimiter_items_def delimiter_item_def lit_def)
  have 3: "lit [quote] (quote # r) = Some r" by (simp add: lit_def)
  have 4: "span (quote # quote # r) r = [quote, quote]"
    using span_append [of "[quote, quote]" r] by simp
  show ?thesis
    by (simp add: delimiter_def 1 2 3 4 skip_not_WHITESPACE)
qed

theorem delimiter_may_be_empty:
  "delimiter ([quote, quote] @ r) = Some ([quote, quote], r) \<and>
   iterable (''$x.split('' @ [quote, quote] @ '')'' @ r) =
     Some (SplitExpression (RegisterReference ''x'') [quote, quote], r) \<and>
   (\<forall>located.
      parse located (''workflow w v1{step s{for i in $x.split('' @ [quote, quote] @ ''){f()}}}'') =
      Inr (Workflow ''w'' ''v1''
        [Step ''s'' [ForLoop ''i'' (SplitExpression (RegisterReference ''x'') [quote, quote])
           [Action (Command ''f'' [])]]] None False))"
proof (intro conjI)
  show "delimiter ([quote, quote] @ r) = Some ([quote, quote], r)"
    using delimiter_empty [of r] by simp
next
  define t where "t = ''.split('' @ [quote, quote] @ '')'' @ r"
  define u where "u = ''$x'' @ t"
  have dot: "\<not> identifier_char (CHR ''.'')"
    by (simp add: identifier_char_def ASCII_ALPHANUMERIC_def)
  have x: "\<forall>c\<in>set ''x''. identifier_char c"
    by (simp add: identifier_char_def ASCII_ALPHANUMERIC_def)
  have "identifier_rule (''x'' @ t) = Some (''x'', t)"
    using x dot by (intro identifier_rule_append) (auto simp: t_def)
  then have reg: "register u = Some (''x'', t)"
    by (simp add: u_def register_def lit_def skip_Cons WHITESPACE_def)
  have src: "split_source u = Some (RegisterReference ''x'', t)"
    by (simp add: split_source_def reg choice_def node_def)
  have l: "lit ''.split('' (skip t) = Some (quote # quote # '')'' @ r)"
    by (simp add: t_def skip_Cons WHITESPACE_def lit_def)
  have d: "delimiter (skip (quote # quote # '')'' @ r)) = Some ([quote, quote], '')'' @ r)"
    using delimiter_empty [of "'')'' @ r"] by (simp add: skip_not_WHITESPACE)
  have c: "lit '')'' (skip ('')'' @ r)) = Some r"
    by (simp add: skip_Cons WHITESPACE_def lit_def)
  have "split_expression u = Some ((RegisterReference ''x'', [quote, quote]), r)"
    using src l d c by (simp add: split_expression_def)
  then have "iterable u =
      Some (SplitExpression (RegisterReference ''x'') [quote, quote], r)"
    by (simp add: iterable_def choice_def node_def)
  then show "iterable (''$x.split('' @ [quote, quote] @ '')'' @ r) =
      Some (SplitExpression (RegisterReference ''x'') [quote, quote], r)"
    by (simp add: u_def t_def)
next
  have "workflow (''workflow w v1{step s{for i in $x.split('' @ [quote, quote] @ ''){f()}}}'') =
      Some (Workflow ''w'' ''v1''
        [Step ''s'' [ForLoop ''i'' (SplitExpression (RegisterReference ''x'') [quote, quote])
           [Action (Command ''f'' [])]]] None False, [])"
    by code_simp
  then show "\<forall>located.
      parse located (''workflow w v1{step s{for i in $x.split('' @ [quote, quote] @ ''){f()}}}'') =
      Inr (Workflow ''w'' ''v1''
        [Step ''s'' [ForLoop ''i'' (SplitExpression (RegisterReference ''x'') [quote, quote])
           [Action (Command ''f'' [])]]] None False)"
    by (simp add: parse_def)
qed

subsection \<open>Range before comparison\<close>

text \<open>
  C5. In \<^verbatim>\<open>expression\<close> the range alternative is tried first. Wherever
  \<^verbatim>\<open>range_expression\<close> matches, the expression is that range expression; an
  expression that is a comparison or a bare simple expression is produced only where
  \<^verbatim>\<open>range_expression\<close> fails; and the guard of a condition whose text after
  \<^verbatim>\<open>if\<close> is a range expression is that range expression.
\<close>

theorem range_before_comparison:
  "(range_expression s = Some ((a, b), r) \<longrightarrow> expression s = Some (RangeExpression a b, r)) \<and>
   (expression s = Some (e, r) \<and> (\<forall>a b. e \<noteq> RangeExpression a b) \<longrightarrow>
      range_expression s = None) \<and>
   (lit ''if'' g = Some r1 \<and> range_expression (skip r1) = Some ((a, b), r2) \<and>
    condition g = Some ((e, body), r3) \<longrightarrow> e = RangeExpression a b)"
proof (intro conjI impI)
  assume "range_expression s = Some ((a, b), r)"
  then show "expression s = Some (RangeExpression a b, r)"
    by (simp add: expression_def choice_def node_def)
next
  assume a: "expression s = Some (e, r) \<and> (\<forall>a b. e \<noteq> RangeExpression a b)"
  show "range_expression s = None"
  proof (cases "range_expression s")
    case None
    then show ?thesis .
  next
    case (Some y)
    obtain a' b' r' where "y = ((a', b'), r')" by (cases y) auto
    then have "expression s = Some (RangeExpression a' b', r')"
      using Some by (simp add: expression_def choice_def node_def)
    then show ?thesis using a by auto
  qed
next
  assume a: "lit ''if'' g = Some r1 \<and> range_expression (skip r1) = Some ((a, b), r2) \<and>
    condition g = Some ((e, body), r3)"
  then have "expression (skip r1) = Some (RangeExpression a b, r2)"
    by (simp add: expression_def choice_def node_def)
  then show "e = RangeExpression a b"
    using a by (auto simp: condition.simps [of g] split: bind_splits)
qed

theorem range_before_comparison_witness:
  "expression ''a..b {'' = Some (RangeExpression ''a'' ''b'', '' {'') \<and>
   range_expression ''x == 1 {'' = None \<and>
   expression ''x == 1 {'' = Some (Comparison (Identifier ''x'') Equal (Identifier ''1''), '' {'') \<and>
   condition ''if a..b{f()}'' =
     Some ((RangeExpression ''a'' ''b'', [Action (Command ''f'' [])]), [])"
proof -
  have r: "range_expression ''a..b {'' = Some ((''a'', ''b''), '' {'')" by code_simp
  have e: "expression ''x == 1 {'' =
      Some (Comparison (Identifier ''x'') Equal (Identifier ''1''), '' {'')" by code_simp
  have n: "\<forall>a b. Comparison (Identifier ''x'') Equal (Identifier ''1'') \<noteq> RangeExpression a b"
    by simp
  have l: "lit ''if'' ''if a..b{f()}'' = Some '' a..b{f()}''" by code_simp
  have g: "range_expression (skip '' a..b{f()}'') = Some ((''a'', ''b''), ''{f()}'')" by code_simp
  have c: "condition ''if a..b{f()}'' =
      Some ((RangeExpression ''a'' ''b'', [Action (Command ''f'' [])]), [])" by code_simp
  have 1: "expression ''a..b {'' = Some (RangeExpression ''a'' ''b'', '' {'')"
    using range_before_comparison [where s = "''a..b {''" and a = "''a''" and b = "''b''"
        and r = "'' {''"] r by blast
  have 2: "range_expression ''x == 1 {'' = None"
    using range_before_comparison [where s = "''x == 1 {''"
        and e = "Comparison (Identifier ''x'') Equal (Identifier ''1'')" and r = "'' {''"] e n
    by blast
  show ?thesis using 1 2 e c by simp
qed


subsection \<open>At least one step, at least one statement\<close>

lemma step_nonempty: "step s = Some (st, r) \<Longrightarrow> statements st \<noteq> []"
  by (auto simp: step_def step_body.simps [of "skip _"] split: bind_splits prod.splits)

lemma steps_more_nonempty:
  "steps_more s = (xs, r) \<Longrightarrow> st \<in> set xs \<Longrightarrow> statements st \<noteq> []"
proof (induction s arbitrary: xs r rule: steps_more.induct)
  case (1 s)
  show ?case
  proof (cases "step (skip s)")
    case None
    then show ?thesis using 1(2,3) by (simp add: steps_more.simps [of s])
  next
    case (Some y)
    obtain x r1 where y: "y = (x, r1)" by (cases y)
    obtain xs' r' where m: "steps_more r1 = (xs', r')" by (cases "steps_more r1")
    have xs: "xs = x # xs'" using 1(2) Some y m by (simp add: steps_more.simps [of s])
    show ?thesis
    proof (cases "st = x")
      case True
      then show ?thesis using step_nonempty Some y by blast
    next
      case False
      then have "st \<in> set xs'" using 1(3) xs by simp
      then show ?thesis using "1.IH" [OF Some y [symmetric] m] by simp
    qed
  qed
qed

lemma steps1_nonempty:
  assumes "steps1 s = Some (xs, r)"
  shows "xs \<noteq> [] \<and> (\<forall>st\<in>set xs. statements st \<noteq> [])"
proof -
  obtain x r1 xs' where x: "step s = Some (x, r1)"
    and rep: "steps_rep (skip r1) = (xs', r)" and xs: "xs = x # xs'"
    using assms by (auto simp: steps1_def split: bind_splits prod.splits)
  have "\<forall>st\<in>set xs'. statements st \<noteq> []"
  proof (cases "step (skip r1)")
    case None
    then show ?thesis using rep by (simp add: steps_rep_def)
  next
    case (Some y)
    obtain x2 r2 where y: "y = (x2, r2)" by (cases y)
    obtain xs2 r3 where m: "steps_more r2 = (xs2, r3)" by (cases "steps_more r2")
    have "xs' = x2 # xs2" using rep Some y m by (simp add: steps_rep_def)
    then show ?thesis
      using step_nonempty Some y steps_more_nonempty [OF m] by auto
  qed
  then show ?thesis using xs step_nonempty [OF x] by simp
qed

lemma parse_Inr: "parse located s = Inr w \<longleftrightarrow> workflow s = Some (w, [])"
  by (auto simp: parse_def split: option.splits if_splits)

lemma workflow_parts:
  "workflow s = Some (w, r) \<longleftrightarrow>
     (\<exists>r1 r2 r3 r4 r5 r6 r7.
        lit ''workflow'' s = Some r1 \<and>
        identifier_rule (skip r1) = Some (name w, r2) \<and>
        version (skip r2) = Some (version_text w, r3) \<and>
        lit ''{'' (skip r3) = Some r4 \<and>
        steps1 (skip r4) = Some (steps w, r5) \<and>
        lit ''}'' (skip r5) = Some r6 \<and>
        optional_author_tag (skip r6) = (author w, r7) \<and>
        optional_sticky_tag (skip r7) = (sticky w, r))"
  by (cases w) (auto simp: workflow_def split: bind_splits prod.splits)

text \<open>
  C6. Every workflow that \<open>parse\<close> returns has at least one step, and every step of
  it has at least one statement. Where the body of a workflow or of a step starts with
  the closing brace, \<^verbatim>\<open>step+\<close> and \<^verbatim>\<open>step_body\<close> fail, and the workflows with an
  empty body and with an empty step are rejected with the located error.
\<close>

theorem at_least_one_step_and_statement:
  "(parse located s = Inr w \<longrightarrow>
      steps w \<noteq> [] \<and> (\<forall>st\<in>set (steps w). statements st \<noteq> [])) \<and>
   steps1 (CHR ''}'' # r) = None \<and>
   step_body (CHR ''}'' # r) = None \<and>
   parse located ''workflow w v1 { }'' = Inl (located ''workflow w v1 { }'') \<and>
   parse located ''workflow w v1 { step s { } }'' = Inl (located ''workflow w v1 { step s { } }'')"
proof -
  have 1: "steps w \<noteq> [] \<and> (\<forall>st\<in>set (steps w). statements st \<noteq> [])"
    if p: "parse located s = Inr w"
  proof -
    obtain r0 where "workflow s = Some (w, r0)" using p by (auto simp: parse_Inr)
    then obtain r4 r5 where "steps1 (skip r4) = Some (steps w, r5)"
      by (auto simp: workflow_def split: bind_splits prod.splits)
    then show ?thesis by (rule steps1_nonempty)
  qed
  have 2: "steps1 (CHR ''}'' # r) = None"
    by (simp add: steps1_def step_def lit_def)
  have "condition (CHR ''}'' # r) = None" by (simp add: condition.simps lit_def)
  moreover have "for_loop (CHR ''}'' # r) = None" by (simp add: for_loop.simps lit_def)
  moreover have "register_operation (CHR ''}'' # r) = None"
    by (simp add: register_operation_def register_def lit_def)
  moreover have "identifier_rule (CHR ''}'' # r) = None"
    by (simp add: identifier_rule_def identifier_char_def ASCII_ALPHANUMERIC_def)
  then have "action (CHR ''}'' # r) = None"
    by (simp add: action_def external_fn_call_def command_call_def command_def lit_def
        choice_def node_def)
  ultimately have "step_body_item (CHR ''}'' # r) = None"
    by (simp add: step_body_item.simps choice_def node_def)
  then have 3: "step_body (CHR ''}'' # r) = None"
    by (simp add: step_body.simps)
  have "workflow ''workflow w v1 { }'' = None" by code_simp
  then have 4: "parse located ''workflow w v1 { }'' = Inl (located ''workflow w v1 { }'')"
    by (simp add: parse_def)
  have "workflow ''workflow w v1 { step s { } }'' = None" by code_simp
  then have 5: "parse located ''workflow w v1 { step s { } }'' =
      Inl (located ''workflow w v1 { step s { } }'')"
    by (simp add: parse_def)
  show ?thesis using 1 2 3 4 5 by blast
qed

theorem at_least_one_step_and_statement_witness:
  "steps (Workflow ''w'' ''v1'' [Step ''s'' [Action (Command ''f'' [])]] None False) \<noteq> [] \<and>
   list_all (\<lambda>st. statements st \<noteq> [])
     (steps (Workflow ''w'' ''v1'' [Step ''s'' [Action (Command ''f'' [])]] None False))"
proof -
  have "workflow ''workflow w v1{step s{f()}}'' =
      Some (Workflow ''w'' ''v1'' [Step ''s'' [Action (Command ''f'' [])]] None False, [])"
    by code_simp
  then have "parse (\<lambda>s. \<lparr>position = 0, expected = {}\<rparr>) ''workflow w v1{step s{f()}}'' =
      Inr (Workflow ''w'' ''v1'' [Step ''s'' [Action (Command ''f'' [])]] None False)"
    by (simp add: parse_def)
  then show ?thesis
    using at_least_one_step_and_statement
      [of "\<lambda>s. \<lparr>position = 0, expected = {}\<rparr>" "''workflow w v1{step s{f()}}''"
          "Workflow ''w'' ''v1'' [Step ''s'' [Action (Command ''f'' [])]] None False"]
    by (simp add: list_all_iff)
qed

subsection \<open>The text of a version\<close>

text \<open>
  C1, as stated, fails: \<^verbatim>\<open>version\<close> is a normal rule, so whitespace is skipped
  between its parts and stays in its text. The source with \<^verbatim>\<open>v1 .2\<close> is accepted,
  and the version of the workflow is that text, which does not match
  \<open>v<digits>(.<digits>)*\<close>.
\<close>

theorem version_may_contain_whitespace:
  "(\<forall>located. parse located ''workflow w v1 .2{step s{f()}}'' =
      Inr (Workflow ''w'' ''v1 .2'' [Step ''s'' [Action (Command ''f'' [])]] None False)) \<and>
   \<not> version_pattern ''v1 .2'' \<and> version_pattern ''v1.2''"
proof -
  have "workflow ''workflow w v1 .2{step s{f()}}'' =
      Some (Workflow ''w'' ''v1 .2'' [Step ''s'' [Action (Command ''f'' [])]] None False, [])"
    by code_simp
  then have "\<forall>located. parse located ''workflow w v1 .2{step s{f()}}'' =
      Inr (Workflow ''w'' ''v1 .2'' [Step ''s'' [Action (Command ''f'' [])]] None False)"
    by (simp add: parse_def)
  moreover have "\<not> version_pattern ''v1 .2''" by code_simp
  moreover have "version_pattern ''v1.2''" by code_simp
  ultimately show ?thesis by blast
qed

lemma ASCII_DIGIT_not_WHITESPACE: "ASCII_DIGIT c \<Longrightarrow> \<not> WHITESPACE c"
  by (auto simp: ASCII_DIGIT_def WHITESPACE_def)

lemma not_ASCII_DIGIT_dot [simp]: "\<not> ASCII_DIGIT (CHR ''.'')"
  by (simp add: ASCII_DIGIT_def)

lemma visible_append [simp]: "visible (a @ b) = visible a @ visible b"
  by (simp add: visible_def)

lemma visible_Nil [simp]: "visible [] = []"
  by (simp add: visible_def)

text \<open>The text a rule has read, with what the implicit whitespace skipped left out.\<close>

lemma skip_reads: "\<exists>p. s = p @ skip s \<and> visible p = []"
proof
  show "s = takeWhile WHITESPACE s @ skip s \<and> visible (takeWhile WHITESPACE s) = []"
    by (auto simp: skip_def visible_def filter_empty_conv dest: set_takeWhileD)
qed

lemma digit_reads: "digit s = Some r \<Longrightarrow> \<exists>c. s = c # r \<and> ASCII_DIGIT c"
  by (cases s) (auto split: if_splits)

lemma digits_more_reads: "\<exists>p. s = p @ digits_more s \<and> list_all ASCII_DIGIT (visible p)"
proof (induction s rule: digits_more.induct)
  case (1 s)
  show ?case
  proof (cases "digit (skip s)")
    case None
    then have "digits_more s = s" by (simp add: digits_more.simps [of s])
    then show ?thesis by (intro exI [of _ "[]"]) simp
  next
    case (Some r)
    obtain w where w: "s = w @ skip s" "visible w = []" using skip_reads by blast
    obtain c where c: "skip s = c # r" "ASCII_DIGIT c" using digit_reads [OF Some] by blast
    obtain p where p: "r = p @ digits_more r" "list_all ASCII_DIGIT (visible p)"
      using 1 Some by blast
    have m: "digits_more s = digits_more r" using Some by (simp add: digits_more.simps [of s])
    have "s = (w @ c # p) @ digits_more s" using w(1) c(1) p(1) m by simp
    moreover have "list_all ASCII_DIGIT (visible (w @ c # p))"
      using w(2) c(2) p(2) by (simp add: visible_def ASCII_DIGIT_not_WHITESPACE)
    ultimately show ?thesis by blast
  qed
qed

lemma digits_rep_reads: "\<exists>p. s = p @ digits_rep s \<and> list_all ASCII_DIGIT (visible p)"
proof (cases "digit s")
  case None
  then have "digits_rep s = s" by (simp add: digits_rep_def)
  then show ?thesis by (intro exI [of _ "[]"]) simp
next
  case (Some r)
  obtain c where c: "s = c # r" "ASCII_DIGIT c" using digit_reads [OF Some] by blast
  obtain p where p: "r = p @ digits_more r" "list_all ASCII_DIGIT (visible p)"
    using digits_more_reads by blast
  have m: "digits_rep s = digits_more r" using Some by (simp add: digits_rep_def)
  have "s = (c # p) @ digits_rep s" using c(1) p(1) m by simp
  moreover have "list_all ASCII_DIGIT (visible (c # p))"
    using c(2) p(2) by (simp add: visible_def ASCII_DIGIT_not_WHITESPACE)
  ultimately show ?thesis by blast
qed

lemma digits1_reads:
  assumes "digits1 s = Some r"
  shows "\<exists>p. s = p @ r \<and> visible p \<noteq> [] \<and> list_all ASCII_DIGIT (visible p)"
proof -
  obtain r1 where d: "digit s = Some r1" and r: "r = digits_rep (skip r1)"
    using assms by (auto simp: digits1_def split: bind_splits)
  obtain c where c: "s = c # r1" "ASCII_DIGIT c" using digit_reads [OF d] by blast
  obtain w where w: "r1 = w @ skip r1" "visible w = []" using skip_reads by blast
  obtain p where p: "skip r1 = p @ r" "list_all ASCII_DIGIT (visible p)"
    using digits_rep_reads [of "skip r1"] r by auto
  have "s = (c # w @ p) @ r" using c(1) w(1) p(1) by simp
  moreover have "visible (c # w @ p) = c # visible p"
    using c(2) w(2) by (simp add: visible_def ASCII_DIGIT_not_WHITESPACE)
  ultimately show ?thesis using c(2) p(2) by (intro exI [of _ "c # w @ p"]) simp
qed

lemma lit_reads: "lit p s = Some r \<Longrightarrow> s = p @ r"
  by (auto simp: lit_def split: if_splits) (metis append_take_drop_id)

lemma dot_digits_reads:
  assumes "dot_digits s = Some r"
  shows "\<exists>p d. s = p @ r \<and> visible p = CHR ''.'' # d \<and> d \<noteq> [] \<and> list_all ASCII_DIGIT d"
proof -
  obtain r1 where l: "lit ''.'' s = Some r1" and d: "digits1 (skip r1) = Some r"
    using assms by (auto simp: dot_digits_def split: bind_splits)
  have s: "s = ''.'' @ r1" using l by (rule lit_reads)
  obtain w where w: "r1 = w @ skip r1" "visible w = []" using skip_reads by blast
  obtain p where p: "skip r1 = p @ r" "visible p \<noteq> []" "list_all ASCII_DIGIT (visible p)"
    using digits1_reads [OF d] by blast
  have "s = (''.'' @ w @ p) @ r" using s w(1) p(1) by simp
  moreover have "visible (''.'' @ w @ p) = CHR ''.'' # visible p"
    using w(2) by (simp add: visible_def WHITESPACE_def)
  ultimately show ?thesis using p(2,3) by blast
qed

lemma version_groups_starts: "version_groups g \<Longrightarrow> g = [] \<or> hd g = CHR ''.''"
  by (cases g) auto

lemma digits_then_groups:
  assumes "list_all ASCII_DIGIT d" and "g = [] \<or> hd g = CHR ''.''"
  shows "takeWhile ASCII_DIGIT (d @ g) = d" and "dropWhile ASCII_DIGIT (d @ g) = g"
proof -
  have a: "\<forall>c\<in>set d. ASCII_DIGIT c" using assms(1) by (simp add: list_all_iff)
  show "takeWhile ASCII_DIGIT (d @ g) = d"
    using a assms(2) by (cases g) (auto simp: takeWhile_append2)
  show "dropWhile ASCII_DIGIT (d @ g) = g"
    using a assms(2) by (cases g) (auto simp: dropWhile_append2)
qed

lemma version_groups_dot:
  assumes "d \<noteq> []" and "list_all ASCII_DIGIT d" and "version_groups g"
  shows "version_groups (CHR ''.'' # d @ g)"
  using assms digits_then_groups [OF assms(2) version_groups_starts [OF assms(3)]] by simp

lemma dot_digits_more_reads: "\<exists>p. s = p @ dot_digits_more s \<and> version_groups (visible p)"
proof (induction s rule: dot_digits_more.induct)
  case (1 s)
  show ?case
  proof (cases "dot_digits (skip s)")
    case None
    then have "dot_digits_more s = s" by (simp add: dot_digits_more.simps [of s])
    then show ?thesis by (intro exI [of _ "[]"]) simp
  next
    case (Some r)
    obtain w where w: "s = w @ skip s" "visible w = []" using skip_reads by blast
    obtain q d where q: "skip s = q @ r" "visible q = CHR ''.'' # d" "d \<noteq> []"
      "list_all ASCII_DIGIT d"
      using dot_digits_reads [OF Some] by blast
    obtain p where p: "r = p @ dot_digits_more r" "version_groups (visible p)"
      using 1 Some by blast
    have m: "dot_digits_more s = dot_digits_more r"
      using Some by (simp add: dot_digits_more.simps [of s])
    have "s = (w @ q @ p) @ dot_digits_more s" using w(1) q(1) p(1) m by simp
    moreover have "version_groups (visible (w @ q @ p))"
      using w(2) q(2) version_groups_dot [OF q(3,4) p(2)] by simp
    ultimately show ?thesis by blast
  qed
qed

lemma dot_digits_rep_reads: "\<exists>p. s = p @ dot_digits_rep s \<and> version_groups (visible p)"
proof (cases "dot_digits s")
  case None
  then have "dot_digits_rep s = s" by (simp add: dot_digits_rep_def)
  then show ?thesis by (intro exI [of _ "[]"]) simp
next
  case (Some r)
  obtain q d where q: "s = q @ r" "visible q = CHR ''.'' # d" "d \<noteq> []"
    "list_all ASCII_DIGIT d"
    using dot_digits_reads [OF Some] by blast
  obtain p where p: "r = p @ dot_digits_more r" "version_groups (visible p)"
    using dot_digits_more_reads by blast
  have m: "dot_digits_rep s = dot_digits_more r" using Some by (simp add: dot_digits_rep_def)
  have "s = (q @ p) @ dot_digits_rep s" using q(1) p(1) m by simp
  moreover have "version_groups (visible (q @ p))"
    using q(2) version_groups_dot [OF q(3,4) p(2)] by simp
  ultimately show ?thesis by blast
qed

lemma version_reads:
  assumes "version s = Some (v, r)"
  shows "s = v @ r \<and> version_pattern (visible v)"
proof -
  obtain r1 r2 where l: "lit ''v'' s = Some r1" and d: "digits1 (skip r1) = Some r2"
    and r: "r = dot_digits_rep (skip r2)" and v: "v = span s r"
    using assms by (auto simp: version_def Let_def split: bind_splits)
  have s: "s = ''v'' @ r1" using l by (rule lit_reads)
  obtain w1 where w1: "r1 = w1 @ skip r1" "visible w1 = []" using skip_reads by blast
  obtain p where p: "skip r1 = p @ r2" "visible p \<noteq> []" "list_all ASCII_DIGIT (visible p)"
    using digits1_reads [OF d] by blast
  obtain w2 where w2: "r2 = w2 @ skip r2" "visible w2 = []" using skip_reads by blast
  obtain q where q: "skip r2 = q @ r" "version_groups (visible q)"
    using dot_digits_rep_reads [of "skip r2"] r by auto
  have eq: "s = (''v'' @ w1 @ p @ w2 @ q) @ r"
    using s w1(1) p(1) w2(1) q(1) by simp
  then have "span s r = ''v'' @ w1 @ p @ w2 @ q"
    using span_append [of "''v'' @ w1 @ p @ w2 @ q" r] by simp
  then have v': "v = ''v'' @ w1 @ p @ w2 @ q" using v by simp
  have vis: "visible v = CHR ''v'' # visible p @ visible q"
    unfolding v' using w1(2) w2(2) by (simp add: visible_def WHITESPACE_def)
  have "version_pattern (visible v)"
    unfolding vis version_pattern_def
    using p(2) digits_then_groups [OF p(3) version_groups_starts [OF q(2)]] q(2) by simp
  then show ?thesis using eq v' by simp
qed

text \<open>
  C1, amended. For every source that \<open>parse\<close> accepts, the version of the workflow,
  with its whitespace characters left out, matches \<open>v<digits>(.<digits>)*\<close>.
\<close>

theorem version_matches_up_to_whitespace:
  "parse located s = Inr w \<Longrightarrow> version_pattern (visible (version_text w))"
proof -
  assume "parse located s = Inr w"
  then obtain r0 where "workflow s = Some (w, r0)" by (auto simp: parse_Inr)
  then obtain r2 r3 where "version (skip r2) = Some (version_text w, r3)"
    unfolding workflow_parts by blast
  then show ?thesis using version_reads by blast
qed

theorem version_matches_up_to_whitespace_witness:
  "version_pattern (visible ''v1 .2'')"
proof -
  have "workflow ''workflow w v1 .2{step s{f()}}'' =
      Some (Workflow ''w'' ''v1 .2'' [Step ''s'' [Action (Command ''f'' [])]] None False, [])"
    by code_simp
  then have "parse (\<lambda>s. \<lparr>position = 0, expected = {}\<rparr>) ''workflow w v1 .2{step s{f()}}'' =
      Inr (Workflow ''w'' ''v1 .2'' [Step ''s'' [Action (Command ''f'' [])]] None False)"
    by (simp add: parse_def)
  from version_matches_up_to_whitespace [OF this] show ?thesis by simp
qed

subsection \<open>Escaped quotes in string literals and in delimiters\<close>

lemma skip_WHITESPACE: "WHITESPACE c \<Longrightarrow> skip (c # s) = skip s"
  by (simp add: skip_Cons)

lemma string_item_quote [simp]: "string_item (quote # r) = None"
  by (simp add: string_item_def lit_def)

lemma string_item_escape [simp]: "string_item (backslash # quote # r) = Some r"
  by (simp add: string_item_def lit_def)

lemma string_item_char:
  assumes "\<not> WHITESPACE c" and "c \<noteq> quote" and "\<not> (c = backslash \<and> s \<noteq> [] \<and> hd s = quote)"
  shows "string_item (c # s) = Some s"
proof -
  have "lit [backslash, quote] (c # s) = None"
    using assms(3) by (cases s) (auto simp: lit_def)
  moreover have "lit [quote] (c # s) = None" using assms(2) by (simp add: lit_def)
  ultimately show ?thesis using assms(1) by (simp add: string_item_def skip_Cons)
qed

lemma string_items_more_WHITESPACE:
  "WHITESPACE c \<Longrightarrow> skip (string_items_more (c # s)) = skip (string_items_more s)"
  by (simp add: string_items_more.simps [of "c # s"] string_items_more.simps [of s]
      skip_WHITESPACE split: option.splits)

lemma string_items_more_item:
  "\<not> WHITESPACE c \<Longrightarrow> string_item (c # s) = Some r \<Longrightarrow>
     string_items_more (c # s) = string_items_more r"
  by (simp add: string_items_more.simps [of "c # s"] skip_Cons)

lemma string_items_more_quote [simp]: "string_items_more (quote # r) = quote # r"
  by (simp add: string_items_more.simps [of "quote # r"] skip_Cons)

lemma string_items_skip: "skip (string_items (skip s)) = skip (string_items_more s)"
  by (simp add: string_items_def string_items_more.simps [of s] split: option.splits)

lemma not_WHITESPACE_backslash [simp]: "\<not> WHITESPACE backslash"
  by (simp add: WHITESPACE_def)

lemma string_body_items:
  "string_body b \<Longrightarrow> skip (string_items_more (b @ quote # r)) = quote # r"
proof (induction b rule: string_body.induct)
  case 1
  show ?case by (simp add: skip_Cons)
next
  case (2 c)
  show ?case
  proof (cases "WHITESPACE c")
    case True
    then show ?thesis using string_items_more_WHITESPACE [of c "quote # r"] by (simp add: skip_Cons)
  next
    case False
    have "string_item (c # quote # r) = Some (quote # r)"
      using False 2 by (intro string_item_char) auto
    then show ?thesis using string_items_more_item [OF False] by (simp add: skip_Cons)
  qed
next
  case (3 c d b)
  show ?case
  proof (cases "c = backslash \<and> d = quote")
    case True
    have "string_items_more (backslash # quote # b @ quote # r) =
        string_items_more (b @ quote # r)"
      using string_items_more_item [of backslash "quote # b @ quote # r" "b @ quote # r"]
      by simp
    then show ?thesis using True 3 by simp
  next
    case False
    then have c: "c \<noteq> quote" and b: "string_body (d # b)" using 3(3) by auto
    have ih: "skip (string_items_more ((d # b) @ quote # r)) = quote # r"
      using 3(2) [OF False] b by blast
    show ?thesis
    proof (cases "WHITESPACE c")
      case True
      then show ?thesis
        using string_items_more_WHITESPACE [of c "(d # b) @ quote # r"] ih by simp
    next
      case nws: False
      have "string_item (c # (d # b) @ quote # r) = Some ((d # b) @ quote # r)"
        using nws c False by (intro string_item_char) auto
      then show ?thesis using string_items_more_item [OF nws] ih by simp
    qed
  qed
qed

lemma string_accepts_body:
  assumes "string_body b"
  shows "string (quote # b @ quote # r) = Some (quote # b @ [quote], r)"
proof -
  define s where "s = quote # b @ quote # r"
  have l: "lit [quote] s = Some (b @ quote # r)" by (simp add: s_def lit_def)
  have "skip (string_items (skip (b @ quote # r))) = quote # r"
    using string_body_items [OF assms] by (simp add: string_items_skip)
  then have l': "lit [quote] (skip (string_items (skip (b @ quote # r)))) = Some r"
    by (simp add: lit_def)
  have "s = (quote # b @ [quote]) @ r" by (simp add: s_def)
  then have sp: "span s r = quote # b @ [quote]"
    using span_append [of "quote # b @ [quote]" r] by simp
  have "string s = Some (quote # b @ [quote], r)"
    using l l' sp by (simp add: string_def)
  then show ?thesis by (simp add: s_def)
qed

lemma quote_starts_no_other:
  "identifier_rule (quote # s) = None" "number (quote # s) = None"
  "boolean (quote # s) = None" "register (quote # s) = None"
  by (simp_all add: identifier_rule_def identifier_char_def ASCII_ALPHANUMERIC_def
      number_def digits1_def ASCII_DIGIT_def boolean_def choice_def lit_def register_def)

lemma delimiter_item_quote [simp]: "delimiter_item (quote # r) = None"
  by (simp add: delimiter_item_def lit_def)

lemma delimiter_item_char:
  "\<not> WHITESPACE c \<Longrightarrow> c \<noteq> quote \<Longrightarrow> delimiter_item (c # s) = Some s"
  by (simp add: delimiter_item_def lit_def skip_Cons)

lemma delimiter_items_more_WHITESPACE:
  "WHITESPACE c \<Longrightarrow> skip (delimiter_items_more (c # s)) = skip (delimiter_items_more s)"
  by (simp add: delimiter_items_more.simps [of "c # s"] delimiter_items_more.simps [of s]
      skip_WHITESPACE split: option.splits)

lemma delimiter_items_more_item:
  "\<not> WHITESPACE c \<Longrightarrow> delimiter_item (c # s) = Some r \<Longrightarrow>
     delimiter_items_more (c # s) = delimiter_items_more r"
  by (simp add: delimiter_items_more.simps [of "c # s"] skip_Cons)

lemma delimiter_items_skip: "skip (delimiter_items (skip s)) = skip (delimiter_items_more s)"
  by (simp add: delimiter_items_def delimiter_items_more.simps [of s] split: option.splits)

lemma delimiter_body_items:
  "quote \<notin> set b \<Longrightarrow> skip (delimiter_items_more (b @ quote # r)) = quote # r"
proof (induction b)
  case Nil
  show ?case by (simp add: delimiter_items_more.simps [of "quote # r"] skip_Cons)
next
  case (Cons c b)
  show ?case
  proof (cases "WHITESPACE c")
    case True
    then show ?thesis
      using delimiter_items_more_WHITESPACE [of c "b @ quote # r"] Cons by simp
  next
    case False
    have "delimiter_item (c # b @ quote # r) = Some (b @ quote # r)"
      using False Cons(2) by (intro delimiter_item_char) auto
    then show ?thesis using delimiter_items_more_item [OF False] Cons by simp
  qed
qed

lemma delimiter_accepts_body:
  assumes "quote \<notin> set b"
  shows "delimiter (quote # b @ quote # r) = Some (quote # b @ [quote], r)"
proof -
  define s where "s = quote # b @ quote # r"
  have l: "lit [quote] s = Some (b @ quote # r)" by (simp add: s_def lit_def)
  have "skip (delimiter_items (skip (b @ quote # r))) = quote # r"
    using delimiter_body_items [OF assms] by (simp add: delimiter_items_skip)
  then have l': "lit [quote] (skip (delimiter_items (skip (b @ quote # r)))) = Some r"
    by (simp add: lit_def)
  have "s = (quote # b @ [quote]) @ r" by (simp add: s_def)
  then have sp: "span s r = quote # b @ [quote]"
    using span_append [of "quote # b @ [quote]" r] by simp
  have "delimiter s = Some (quote # b @ [quote], r)"
    using l l' sp by (simp add: delimiter_def)
  then show ?thesis by (simp add: s_def)
qed

lemma skip_reads_no_quote: "\<exists>p. s = p @ skip s \<and> quote \<notin> set p"
proof
  show "s = takeWhile WHITESPACE s @ skip s \<and> quote \<notin> set (takeWhile WHITESPACE s)"
    by (auto simp: skip_def dest: set_takeWhileD)
qed

lemma delimiter_item_reads:
  assumes "delimiter_item (skip s) = Some r"
  shows "\<exists>c. skip s = c # r \<and> c \<noteq> quote"
proof -
  have n: "lit [quote] (skip s) = None" and a: "ANY (skip s) = Some r"
    using assms by (auto simp: delimiter_item_def split: option.splits)
  then obtain c where c: "skip s = c # r" by (cases "skip s") auto
  then have "c \<noteq> quote" using n by (auto simp: lit_def)
  then show ?thesis using c by blast
qed

lemma delimiter_items_more_reads:
  "\<exists>p. s = p @ delimiter_items_more s \<and> quote \<notin> set p"
proof (induction s rule: delimiter_items_more.induct)
  case (1 s)
  show ?case
  proof (cases "delimiter_item (skip s)")
    case None
    then have "delimiter_items_more s = s" by (simp add: delimiter_items_more.simps [of s])
    then show ?thesis by (intro exI [of _ "[]"]) simp
  next
    case (Some r)
    obtain w where w: "s = w @ skip s" "quote \<notin> set w" using skip_reads_no_quote by blast
    obtain c where c: "skip s = c # r" "c \<noteq> quote" using delimiter_item_reads [OF Some] by blast
    obtain p where p: "r = p @ delimiter_items_more r" "quote \<notin> set p" using 1 Some by blast
    have m: "delimiter_items_more s = delimiter_items_more r"
      using Some by (simp add: delimiter_items_more.simps [of s])
    have "s = (w @ c # p) @ delimiter_items_more s" using w(1) c(1) p(1) m by simp
    moreover have "quote \<notin> set (w @ c # p)" using w(2) c(2) p(2) by simp
    ultimately show ?thesis by blast
  qed
qed

lemma delimiter_items_reads:
  "\<exists>p. skip s = p @ delimiter_items (skip s) \<and> quote \<notin> set p"
proof (cases "delimiter_item (skip s)")
  case None
  then have "delimiter_items (skip s) = skip s" by (simp add: delimiter_items_def)
  then show ?thesis by (intro exI [of _ "[]"]) simp
next
  case (Some r)
  have "delimiter_item (skip (skip s)) = Some r" using Some by simp
  then obtain c where c: "skip s = c # r" "c \<noteq> quote"
    using delimiter_item_reads [of "skip s" r] by auto
  obtain p where p: "r = p @ delimiter_items_more r" "quote \<notin> set p"
    using delimiter_items_more_reads by blast
  have m: "delimiter_items (skip s) = delimiter_items_more r"
    using Some by (simp add: delimiter_items_def)
  have "skip s = (c # p) @ delimiter_items (skip s)" using c(1) p(1) m by simp
  moreover have "quote \<notin> set (c # p)" using c(2) p(2) by simp
  ultimately show ?thesis by blast
qed

lemma delimiter_reads:
  assumes "delimiter s = Some (d, r)"
  shows "\<exists>b. d = quote # b @ [quote] \<and> quote \<notin> set b \<and> s = d @ r"
proof -
  obtain r1 where l1: "lit [quote] s = Some r1"
    and l3: "lit [quote] (skip (delimiter_items (skip r1))) = Some r"
    and d: "d = span s r"
    using assms by (auto simp: delimiter_def Let_def split: bind_splits)
  have s: "s = [quote] @ r1" using l1 by (rule lit_reads)
  obtain w1 where w1: "r1 = w1 @ skip r1" "quote \<notin> set w1" using skip_reads_no_quote by blast
  obtain p where p: "skip r1 = p @ delimiter_items (skip r1)" "quote \<notin> set p"
    using delimiter_items_reads by blast
  obtain w2 where w2: "delimiter_items (skip r1) = w2 @ skip (delimiter_items (skip r1))"
    "quote \<notin> set w2" using skip_reads_no_quote by blast
  have e: "skip (delimiter_items (skip r1)) = [quote] @ r" using l3 by (rule lit_reads)
  have "r1 = w1 @ p @ w2 @ [quote] @ r"
    using w1(1) p(1) w2(1) e by (metis append_assoc)
  then have eq: "s = (quote # (w1 @ p @ w2) @ [quote]) @ r" using s by simp
  then have "span s r = quote # (w1 @ p @ w2) @ [quote]"
    using span_append [of "quote # (w1 @ p @ w2) @ [quote]" r] by simp
  then have "d = quote # (w1 @ p @ w2) @ [quote]" using d by simp
  moreover have "quote \<notin> set (w1 @ p @ w2)" using w1(2) p(2) w2(2) by simp
  ultimately show ?thesis using eq by blast
qed

text \<open>
  C2, as stated, fails for the delimiter: \<^verbatim>\<open>delimiter\<close> has no alternative for an
  escaped quote, so the delimiter \<^verbatim>\<open>"\""\<close> ends at its second quote, and the loop
  over \<^verbatim>\<open>$a.split("\"")\<close> is rejected, while the same literal is accepted as a
  param.
\<close>

theorem escaped_quote_ends_delimiter:
  "delimiter ([quote, backslash, quote, quote] @ '')'') =
     Some ([quote, backslash, quote], [quote] @ '')'') \<and>
   string ([quote, backslash, quote, quote] @ '')'') =
     Some ([quote, backslash, quote, quote], '')'') \<and>
   (\<forall>located.
      parse located
        (''workflow w v1{step s{for i in $a.split('' @ [quote, backslash, quote, quote] @ ''){f()}}}'') =
      Inl (located
        (''workflow w v1{step s{for i in $a.split('' @ [quote, backslash, quote, quote] @ ''){f()}}}''))) \<and>
   (\<forall>located.
      parse located
        (''workflow w v1{step s{for i in $a.split('' @ [quote, quote] @ ''){f('' @ [quote, backslash, quote, quote] @ '')}}}'') =
      Inr (Workflow ''w'' ''v1''
        [Step ''s'' [ForLoop ''i'' (SplitExpression (RegisterReference ''a'') [quote, quote])
           [Action (Command ''f'' [StringLiteral [quote, backslash, quote, quote]])]]]
        None False))"
proof -
  have 1: "delimiter ([quote, backslash, quote, quote] @ '')'') =
     Some ([quote, backslash, quote], [quote] @ '')'')" by code_simp
  have 2: "string ([quote, backslash, quote, quote] @ '')'') =
     Some ([quote, backslash, quote, quote], '')'')" by code_simp
  have 3: "workflow
      (''workflow w v1{step s{for i in $a.split('' @ [quote, backslash, quote, quote] @ ''){f()}}}'') =
      None" by code_simp
  have 4: "workflow
      (''workflow w v1{step s{for i in $a.split('' @ [quote, quote] @ ''){f('' @ [quote, backslash, quote, quote] @ '')}}}'') =
      Some (Workflow ''w'' ''v1''
        [Step ''s'' [ForLoop ''i'' (SplitExpression (RegisterReference ''a'') [quote, quote])
           [Action (Command ''f'' [StringLiteral [quote, backslash, quote, quote]])]]]
        None False, [])" by code_simp
  show ?thesis using 1 2 3 4 by (simp add: parse_def)
qed

text \<open>
  C2, amended. Where a generic string literal is expected (param, value, simple
  expression, split source), every literal whose body is made of escaped quotes and of
  characters other than the quote is accepted, with its text. The delimiter of a split
  expression accepts every body without a quote, and the text of a delimiter never has a
  quote between its two quotes: an escaped quote is not permitted there.
\<close>

theorem string_literals_permit_escaped_quotes:
  "(string_body b \<longrightarrow>
      string (quote # b @ quote # r) = Some (quote # b @ [quote], r) \<and>
      param (quote # b @ quote # r) = Some (StringLiteral (quote # b @ [quote]), r) \<and>
      value_rule (quote # b @ quote # r) = Some (StringLiteral (quote # b @ [quote]), r) \<and>
      simple_expression (quote # b @ quote # r) = Some (StringLiteral (quote # b @ [quote]), r) \<and>
      split_source (quote # b @ quote # r) = Some (StringLiteral (quote # b @ [quote]), r)) \<and>
   (quote \<notin> set b \<longrightarrow> delimiter (quote # b @ quote # r) = Some (quote # b @ [quote], r)) \<and>
   (delimiter s = Some (d, r') \<longrightarrow> (\<exists>b'. d = quote # b' @ [quote] \<and> quote \<notin> set b'))"
proof (intro conjI impI)
  assume b: "string_body b"
  define u where "u = quote # b @ quote # r"
  have s: "string u = Some (quote # b @ [quote], r)"
    unfolding u_def using b by (rule string_accepts_body)
  have n: "identifier_rule u = None" "number u = None" "boolean u = None" "register u = None"
    unfolding u_def by (rule quote_starts_no_other)+
  show "string (quote # b @ quote # r) = Some (quote # b @ [quote], r)"
    using s by (simp add: u_def)
  have "param u = Some (StringLiteral (quote # b @ [quote]), r)"
    by (simp add: param_def s choice_def node_def)
  then show "param (quote # b @ quote # r) = Some (StringLiteral (quote # b @ [quote]), r)"
    by (simp add: u_def)
  have "value_rule u = Some (StringLiteral (quote # b @ [quote]), r)"
    by (simp add: value_rule_def s choice_def node_def)
  then show "value_rule (quote # b @ quote # r) = Some (StringLiteral (quote # b @ [quote]), r)"
    by (simp add: u_def)
  have "simple_expression u = Some (StringLiteral (quote # b @ [quote]), r)"
    by (simp add: simple_expression_def s n choice_def node_def)
  then show "simple_expression (quote # b @ quote # r) =
      Some (StringLiteral (quote # b @ [quote]), r)"
    by (simp add: u_def)
  have "split_source u = Some (StringLiteral (quote # b @ [quote]), r)"
    by (simp add: split_source_def s n choice_def node_def)
  then show "split_source (quote # b @ quote # r) =
      Some (StringLiteral (quote # b @ [quote]), r)"
    by (simp add: u_def)
next
  assume "quote \<notin> set b"
  then show "delimiter (quote # b @ quote # r) = Some (quote # b @ [quote], r)"
    by (rule delimiter_accepts_body)
next
  assume "delimiter s = Some (d, r')"
  then show "\<exists>b'. d = quote # b' @ [quote] \<and> quote \<notin> set b'"
    using delimiter_reads by blast
qed

theorem string_literals_permit_escaped_quotes_witness:
  "param ([quote, backslash, quote, quote] @ '')'') =
     Some (StringLiteral [quote, backslash, quote, quote], '')'') \<and>
   delimiter ([quote] @ '', '' @ [quote] @ '')'') = Some ([quote] @ '', '' @ [quote], '')'') \<and>
   (\<exists>b'. [quote, backslash, quote] = quote # b' @ [quote] \<and> quote \<notin> set b')"
proof -
  have b: "string_body [backslash, quote]" by simp
  have q: "quote \<notin> set '', ''" by simp
  have d: "delimiter ([quote, backslash, quote, quote] @ '')'') =
     Some ([quote, backslash, quote], [quote] @ '')'')" by code_simp
  have 1: "param (quote # [backslash, quote] @ quote # '')'') =
      Some (StringLiteral (quote # [backslash, quote] @ [quote]), '')'')"
    using string_literals_permit_escaped_quotes [where b = "[backslash, quote]" and r = "'')''"] b
    by blast
  have 2: "delimiter (quote # '', '' @ quote # '')'') = Some (quote # '', '' @ [quote], '')'')"
    using string_literals_permit_escaped_quotes [where b = "'', ''" and r = "'')''"] q
    by blast
  have 3: "\<exists>b'. [quote, backslash, quote] = quote # b' @ [quote] \<and> quote \<notin> set b'"
    using string_literals_permit_escaped_quotes
      [where s = "[quote, backslash, quote, quote] @ '')''" and d = "[quote, backslash, quote]"
        and r' = "[quote] @ '')''"] d
    by blast
  show ?thesis using 1 2 3 by simp
qed


subsection \<open>The text that a rule reads\<close>

lemma blank_Nil [simp]: "blank []"
  by (simp add: blank_def)

lemma blank_Cons [simp]: "blank (c # w) \<longleftrightarrow> WHITESPACE c \<and> blank w"
  by (simp add: blank_def)

lemma blank_append [simp]: "blank (a @ b) \<longleftrightarrow> blank a \<and> blank b"
  by (simp add: blank_def)

lemma skip_append_blank: "blank b \<Longrightarrow> skip (b @ s) = skip s"
  by (induction b) (simp_all add: skip_Cons)

lemma skip_split: "\<exists>b. blank b \<and> b @ skip s = s"
proof (induction s)
  case Nil
  show ?case by simp
next
  case (Cons c s)
  show ?case
  proof (cases "WHITESPACE c")
    case True
    obtain b where "blank b" "b @ skip s = s" using Cons by blast
    then have "blank (c # b) \<and> (c # b) @ skip (c # s) = c # s"
      using True by (simp add: skip_Cons)
    then show ?thesis by blast
  next
    case False
    then have "blank [] \<and> [] @ skip (c # s) = c # s" by (simp add: skip_Cons)
    then show ?thesis by blast
  qed
qed

lemma skip_not_blank_append:
  "\<not> blank q \<Longrightarrow> skip (q @ t) = skip q @ t \<and> skip q \<noteq> []"
  by (induction q) (simp_all add: skip_Cons)





subsection \<open>The fixed order of the parts of a workflow\<close>








subsection \<open>Whitespace between tokens\<close>



lemma outside_plain:
  "quote \<notin> set p \<Longrightarrow> CHR ''.'' \<notin> set p \<Longrightarrow>
   outside_literals (p @ x) = outside_literals x"
proof (induction p)
  case Nil
  show ?case by simp
next
  case (Cons a p)
  have a: "a \<noteq> quote" "CHR ''.'' \<noteq> a" using Cons(2,3) by auto
  have "outside_literals (a # p @ x) = outside_literals (p @ x)"
    using a by (simp add: outside_literals.simps(2) [of a "p @ x"])
  then show ?case using Cons by simp
qed

lemma blank_plain: "blank b \<Longrightarrow> quote \<notin> set b \<and> CHR ''.'' \<notin> set b"
  by (induction b) (auto simp: WHITESPACE_def)

lemma outside_skip: "outside_literals (skip s) = outside_literals s"
proof -
  obtain b where b: "blank b" "b @ skip s = s" using skip_split by blast
  have "outside_literals (b @ skip s) = outside_literals (skip s)"
    using blank_plain [OF b(1)] by (intro outside_plain) simp_all
  then show ?thesis using b(2) by simp
qed

lemma outside_drop:
  assumes "outside_literals (c # s)" and "c \<noteq> quote"
  shows "outside_literals s"
proof (cases "prefix ''.split('' (c # s)")
  case False
  then show ?thesis using assms by (simp add: outside_literals.simps(2))
next
  case True
  then obtain x where x: "c # s = ''.split('' @ x" by (auto simp: prefix_def)
  then have s: "s = ''split('' @ x" by simp
  have d: "drop 6 s = x" using s by simp
  have "outside_literals (''split('' @ x) = outside_literals x"
    by (intro outside_plain) simp_all
  then have 1: "outside_literals s = outside_literals (skip x)" using s outside_skip by simp
  show ?thesis
  proof (cases "skip x")
    case Nil
    then show ?thesis using 1 by (simp add: outside_literals.simps(1))
  next
    case (Cons e u)
    show ?thesis
    proof (cases "e = quote")
      case False
      then have "outside_literals (e # u)"
        using assms True d Cons by (simp add: outside_literals.simps(2) [of c s])
      then show ?thesis using 1 Cons by simp
    next
      case q: True
      then obtain r where "literal_end u = Some r" "outside_literals r"
        using assms True d Cons
        by (auto simp: outside_literals.simps(2) [of c s] split: option.splits)
      then have "outside_literals (e # u)" using q by (simp add: outside_literals.simps(2))
      then show ?thesis using 1 Cons by simp
    qed
  qed
qed

lemma outside_drop_all:
  "outside_literals (p @ s) \<Longrightarrow> quote \<notin> set p \<Longrightarrow> outside_literals s"
proof (induction p)
  case Nil
  then show ?case by simp
next
  case (Cons c p)
  have "c \<noteq> quote" using Cons(3) by auto
  then have "outside_literals (p @ s)" using Cons(2) outside_drop [of c "p @ s"] by simp
  then show ?case using Cons by simp
qed



lemma inside_token_Nil [simp]: "\<not> inside_token [] g" "\<not> inside_token q []"
  by (simp_all add: inside_token_def)

lemma dropWhile_append_stops:
  "dropWhile P xs \<noteq> [] \<Longrightarrow> dropWhile P (xs @ ys) = dropWhile P xs @ ys"
  by (induction xs) auto

lemma after_at_append:
  assumes "after_at q"
  shows "after_at (p @ q)"
proof -
  define d where "d = dropWhile identity_char (rev q)"
  have s: "skip d \<noteq> []" using assms unfolding after_at_def d_def by (auto split: list.splits)
  then have d: "d \<noteq> []" by auto
  have nb: "\<not> blank d"
  proof
    assume "blank d"
    then have "skip (d @ []) = skip []" by (rule skip_append_blank)
    then show False using s by simp
  qed
  have "dropWhile identity_char (rev q @ rev p) = d @ rev p"
    using d unfolding d_def by (rule dropWhile_append_stops)
  then have "skip (dropWhile identity_char (rev (p @ q))) = skip d @ rev p"
    using skip_not_blank_append [OF nb] by simp
  then show ?thesis using assms s unfolding after_at_def d_def by (auto split: list.splits)
qed

lemma inside_token_suffix:
  assumes "\<not> inside_token (p @ q) g"
  shows "\<not> inside_token q g"
proof (cases "q = []")
  case True
  then show ?thesis by simp
next
  case False
  have l: "last (p @ q) = last q" using False by simp
  have s: "suffix ''.split'' q \<Longrightarrow> suffix ''.split'' (p @ q)" by (rule suffix_appendI)
  have t: "after_at q \<Longrightarrow> after_at (p @ q)" by (rule after_at_append)
  show ?thesis
  proof
    assume "inside_token q g"
    then have "inside_token (p @ q) g"
      unfolding inside_token_def l using False s t by blast
    then show False using assms by simp
  qed
qed

lemma apart_drop:
  assumes "apart (p @ q) g" and "quote \<notin> set p"
  shows "apart q g"
proof -
  have "outside_literals (p @ q)" using assms(1) by (simp add: apart_def)
  then have "outside_literals q" using assms(2) by (rule outside_drop_all)
  moreover have "\<not> inside_token (p @ q) g" using assms(1) by (simp add: apart_def)
  then have "\<not> inside_token q g" by (rule inside_token_suffix)
  ultimately show ?thesis by (simp add: apart_def)
qed

lemma blank_no_quote: "blank b \<Longrightarrow> quote \<notin> set b"
  using blank_plain by blast


lemma remains_cases:
  assumes "remains g w r r'"
  obtains (same) "r' = r" "suffix r g"
    | (wider) q where "r = q @ g" "r' = q @ w @ g" "apart q g"
  using assms unfolding remains_def by blast



lemma aligned_remains: "aligned g w s s' \<Longrightarrow> remains g w s s'"
  unfolding aligned_def remains_def by blast

lemma skip_remains:
  assumes "remains g w r r'" and "blank w"
  shows "aligned g w (skip r) (skip r')"
  using assms(1)
proof (cases rule: remains_cases)
  case same
  have "suffix (skip r) r" by simp
  also have "suffix r g" by (rule same(2))
  finally have "suffix (skip r) g" .
  then show ?thesis unfolding aligned_def using same(1) by blast
next
  case (wider q)
  show ?thesis
  proof (cases "blank q")
    case True
    have "skip r = skip g" using wider(1) True by (simp add: skip_append_blank)
    moreover have "skip r' = skip g"
      using wider(2) True assms(2) by (simp add: skip_append_blank)
    moreover have "suffix (skip g) g" by simp
    ultimately show ?thesis unfolding aligned_def by simp
  next
    case False
    have a: "skip r = skip q @ g" using wider(1) skip_not_blank_append [OF False] by simp
    have b: "skip r' = skip q @ w @ g" using wider(2) skip_not_blank_append [OF False] by simp
    have c: "skip q \<noteq> []" using skip_not_blank_append [OF False] by simp
    obtain p where p: "blank p" "p @ skip q = q" using skip_split by blast
    have "apart (p @ skip q) g" unfolding p(2) by (rule wider(3))
    then have d: "apart (skip q) g" using blank_no_quote [OF p(1)] by (rule apart_drop)
    show ?thesis unfolding aligned_def a b using c d by blast
  qed
qed

lemma skip_aligned: "aligned g w s s' \<Longrightarrow> blank w \<Longrightarrow> aligned g w (skip s) (skip s')"
  by (rule skip_remains [OF aligned_remains])













lemma inserted_refl [simp]: "inserted w t t"
  by (simp add: inserted_def)


























lemma suffix_split_tail: "split_tail s = Some (d, r) \<Longrightarrow> suffix r s"
proof -
  assume "split_tail s = Some (d, r)"
  then obtain r1 where 1: "lit ''.split('' s = Some r1" and 2: "delimiter (skip r1) = Some (d, r)"
    by (auto simp: split_tail_def split: bind_splits)
  have "suffix r (skip r1)" using 2 by (rule suffix_delimiter)
  also have "suffix \<dots> r1" by simp
  also have "suffix r1 s" using 1 by (rule suffix_lit)
  finally show ?thesis .
qed












































end
